theory Spec2Isabelle
  imports Main "HOL-Library.Multiset"
begin

section \<open>The data model of \<^verbatim>\<open>json-schema-builder.tsx\<close>\<close>

text \<open>
  \<^verbatim>\<open>type SchemaFieldType = "string" | "number" | "nested"\<close> and
  \<^verbatim>\<open>interface SchemaField { id; name; type; fields? }\<close>.
  The optional property \<^verbatim>\<open>fields\<close> is an option: \<open>None\<close> is an absent
  (\<^verbatim>\<open>undefined\<close>) property, \<open>Some []\<close> an empty array. The selector of \<^verbatim>\<open>id\<close>
  is \<open>id_field\<close>, since \<open>id\<close> is the identity function of HOL.
\<close>

datatype SchemaFieldType = String_t | Number_t | Nested_t

datatype SchemaField =
  SchemaField (id_field: string) (name: string) (type: SchemaFieldType)
    (fields: "SchemaField list option")

section \<open>Strings of decimal digits\<close>

definition is_digit :: "char \<Rightarrow> bool" where
  "is_digit c = (c \<in> set ''0123456789'')"

definition digit_val :: "char \<Rightarrow> nat" where
  "digit_val c = of_char c - 48"

definition digits_val :: "string \<Rightarrow> nat" where
  "digits_val s = foldl (\<lambda>a c. 10 * a + digit_val c) 0 s"

text \<open>
  An array index of ECMAScript: a property key that is the canonical decimal numeral (no
  sign, no leading zero) of an integer from 0 to \<open>2^32 - 2\<close>. Such keys address the
  elements of an array, and an ordinary object lists them before its other keys.
  \<open>array_limit\<close> is the greatest length of an array, so every index of an element is
  below it. A string of digits that is not an array index (a leading zero, a number too
  great) is an ordinary key, which no array has of itself.
\<close>

definition is_numeral :: "string \<Rightarrow> bool" where
  "is_numeral s = (s \<noteq> [] \<and> list_all is_digit s)"

definition array_limit :: nat where
  "array_limit = 2 ^ 32 - 1"

definition array_index :: "string \<Rightarrow> nat option" where
  "array_index s =
     (if s \<noteq> [] \<and> list_all is_digit s \<and> (s = ''0'' \<or> hd s \<noteq> CHR ''0'')
         \<and> digits_val s < array_limit
      then Some (digits_val s) else None)"

section \<open>The projected value\<close>

text \<open>
  What \<^verbatim>\<open>generateSchema\<close> builds: a string, or a plain object. An object is the list
  of its own properties in the order in which JavaScript enumerates them (and in which
  \<^verbatim>\<open>JSON.stringify\<close> prints them): the array-index keys in ascending numeric order,
  then the other keys in the order of their creation.
\<close>

datatype json = JString string | JObject "(string \<times> json) list"

text \<open>
  The properties of a projected value, and \<^verbatim>\<open>Object.keys\<close> of it.
\<close>

fun props :: "json \<Rightarrow> (string \<times> json) list" where
  "props (JObject ps) = ps"
| "props (JString s) = []"

definition object_keys :: "json \<Rightarrow> string list" where
  "object_keys j = map fst (props j)"

fun insert_index :: "nat \<Rightarrow> string \<Rightarrow> json \<Rightarrow> (string \<times> json) list \<Rightarrow> (string \<times> json) list" where
  "insert_index i k v [] = [(k, v)]"
| "insert_index i k v ((k', v') # ps) =
     (case array_index k' of
        Some j \<Rightarrow> if j < i then (k', v') # insert_index i k v ps else (k, v) # (k', v') # ps
      | None \<Rightarrow> (k, v) # (k', v') # ps)"

text \<open>
  \<^verbatim>\<open>{ ...acc, [k]: v }\<close>: a new object with the properties of \<^verbatim>\<open>acc\<close>, then \<^verbatim>\<open>k\<close>
  defined as \<^verbatim>\<open>v\<close>. A key that \<^verbatim>\<open>acc\<close> has keeps its place and takes the new value;
  a new array-index key goes to its numeric place; any other new key goes last.
\<close>

definition spread_with :: "(string \<times> json) list \<Rightarrow> string \<Rightarrow> json \<Rightarrow> (string \<times> json) list" where
  "spread_with acc k v =
     (if k \<in> set (map fst acc) then map (\<lambda>p. if fst p = k then (k, v) else p) acc
      else case array_index k of
             Some i \<Rightarrow> insert_index i k v acc
           | None \<Rightarrow> acc @ [(k, v)])"

section \<open>\<^verbatim>\<open>generateSchema\<close>\<close>

text \<open>
  \<^verbatim>\<open>fields.reduce((acc, field) => { switch (field.type) ... return { ...acc,
  [field.name]: fieldValue } }, {})\<close>. \<open>fieldValue\<close> is the \<^verbatim>\<open>switch\<close>, \<open>reduce_fields\<close>
  the loop of \<^verbatim>\<open>reduce\<close> with its accumulator. The \<^verbatim>\<open>default\<close> branch of the switch
  (\<^verbatim>\<open>fieldValue = ""\<close>) has no case here: \<open>SchemaFieldType\<close> has the three values only.
  \<^verbatim>\<open>field.fields ? ... : {}\<close> tests for an absent property: every array is truthy.
\<close>

fun generateSchema :: "SchemaField list \<Rightarrow> json"
  and reduce_fields :: "(string \<times> json) list \<Rightarrow> SchemaField list \<Rightarrow> (string \<times> json) list"
  and fieldValue :: "SchemaField \<Rightarrow> json" where
  "generateSchema fs = JObject (reduce_fields [] fs)"
| "reduce_fields acc [] = acc"
| "reduce_fields acc (field # rest) =
     reduce_fields (spread_with acc (name field) (fieldValue field)) rest"
| "fieldValue (SchemaField i n String_t cs) = JString ''string''"
| "fieldValue (SchemaField i n Number_t cs) = JString ''number''"
| "fieldValue (SchemaField i n Nested_t (Some cs)) = generateSchema cs"
| "fieldValue (SchemaField i n Nested_t None) = JObject []"

text \<open>
  For the order of the keys of a projection: \<open>first_occurrences seen xs\<close> is \<open>seen\<close>
  followed by the elements of \<open>xs\<close> that are not in it, each once, in the order in which
  they first occur; \<open>key_le\<close> is the order in which an object lists two of its keys,
  array indices by their number and before every other key.
\<close>

fun first_occurrences :: "string list \<Rightarrow> string list \<Rightarrow> string list" where
  "first_occurrences seen [] = seen"
| "first_occurrences seen (x # xs) =
     first_occurrences (if x \<in> set seen then seen else seen @ [x]) xs"

definition is_index :: "string \<Rightarrow> bool" where
  "is_index k = (array_index k \<noteq> None)"

definition key_le :: "string \<Rightarrow> string \<Rightarrow> bool" where
  "key_le k k' =
     (case array_index k of
        Some i \<Rightarrow> (case array_index k' of Some j \<Rightarrow> i \<le> j | None \<Rightarrow> True)
      | None \<Rightarrow> (case array_index k' of Some j \<Rightarrow> False | None \<Rightarrow> True))"

section \<open>JavaScript strings and arrays\<close>

text \<open>
  Paths are ASCII strings (the component builds them from \<^verbatim>\<open>fields\<close>, dots and
  decimal numerals). \<open>includes_str s pat\<close> is \<^verbatim>\<open>s.includes(pat)\<close>, \<open>split sep s\<close> is
  \<^verbatim>\<open>s.split(sep)\<close> for a one-character separator, \<open>join sep ps\<close> is
  \<^verbatim>\<open>ps.join(sep)\<close>.
\<close>

fun includes_str :: "string \<Rightarrow> string \<Rightarrow> bool" where
  "includes_str [] pat = (pat = [])"
| "includes_str (c # cs) pat = (take (length pat) (c # cs) = pat \<or> includes_str cs pat)"

fun split :: "char \<Rightarrow> string \<Rightarrow> string list" where
  "split sep [] = [[]]"
| "split sep (c # cs) =
     (if c = sep then [] # split sep cs
      else case split sep cs of p # ps \<Rightarrow> (c # p) # ps | [] \<Rightarrow> [[c]])"

fun join :: "string \<Rightarrow> string list \<Rightarrow> string" where
  "join sep [] = []"
| "join sep [p] = p"
| "join sep (p # q # ps) = p @ sep @ join sep (q # ps)"

text \<open>
  \<^verbatim>\<open>parseInt(s)\<close> with no radix: leading white space is skipped (the white space
  characters up to U+00A0: a character here is one of the first 256), then an optional
  sign, then an optional \<^verbatim>\<open>0x\<close> that selects radix 16, then the longest run of digits of
  the radix. No digit at all gives \<^verbatim>\<open>NaN\<close>, which is \<open>None\<close> here. The value is kept
  exact: JavaScript rounds beyond \<open>2^53\<close>, where the number is far beyond the length of
  any array, so that \<^verbatim>\<open>splice\<close> removes the same element, or none, either way.
\<close>

definition is_space :: "char \<Rightarrow> bool" where
  "is_space c = (of_char c \<in> {9, 10, 11, 12, 13, 32, 160 :: nat})"

definition radix_digit :: "nat \<Rightarrow> char \<Rightarrow> nat option" where
  "radix_digit r c =
     (let v = (if is_digit c then Some (digit_val c)
               else if c \<in> set ''abcdef'' then Some (of_char c - 87)
               else if c \<in> set ''ABCDEF'' then Some (of_char c - 55)
               else None)
      in case v of Some d \<Rightarrow> if d < r then Some d else None | None \<Rightarrow> None)"

definition radix_val :: "nat \<Rightarrow> string \<Rightarrow> nat" where
  "radix_val r s = foldl (\<lambda>a c. r * a + (case radix_digit r c of Some d \<Rightarrow> d | None \<Rightarrow> 0)) 0 s"

definition parseInt :: "string \<Rightarrow> int option" where
  "parseInt s =
     (let t = dropWhile is_space s;
          neg = (take 1 t = ''-'');
          u = (if take 1 t = ''-'' \<or> take 1 t = ''+'' then drop 1 t else t);
          hex = (take 2 u = ''0x'' \<or> take 2 u = ''0X'');
          r = (if hex then 16 else 10);
          w = (if hex then drop 2 u else u);
          ds = takeWhile (\<lambda>c. radix_digit r c \<noteq> None) w
      in if ds = [] then None
         else Some (if neg then - int (radix_val r ds) else int (radix_val r ds)))"

text \<open>
  \<^verbatim>\<open>xs.splice(start, 1)\<close> on a copy of \<^verbatim>\<open>xs\<close>, the copy returned. \<^verbatim>\<open>NaN\<close> counts as
  0, a negative start counts from the end, a start beyond the end removes nothing.
\<close>

definition splice1 :: "int option \<Rightarrow> 'a list \<Rightarrow> 'a list" where
  "splice1 start xs =
     (let len = int (length xs);
          rel = (case start of None \<Rightarrow> 0 | Some i \<Rightarrow> i);
          actual = nat (if rel < 0 then max (len + rel) 0 else min rel len)
      in take actual xs @ drop (Suc actual) xs)"

section \<open>The form state of react-hook-form\<close>

text \<open>
  The component keeps its tree in the form values of react-hook-form, under the key
  \<^verbatim>\<open>fields\<close>, and reads and writes it by dotted paths: \<^verbatim>\<open>form.getValues(path)\<close>,
  \<^verbatim>\<open>form.setValue(path, value)\<close>, and \<^verbatim>\<open>append\<close> and \<^verbatim>\<open>remove\<close> of
  \<^verbatim>\<open>useFieldArray({ name: "fields" })\<close>. The state here is the value under
  \<^verbatim>\<open>fields\<close>, a \<open>SchemaField list\<close>.

  The library walks a path key by key through objects and arrays of any shape. The model
  follows a path of keys separated by dots, where the keys are \<^verbatim>\<open>fields\<close> on the form
  values and on a field, and strings of digits on an array. There are three outcomes:
  \<^item> \<open>Done x\<close>: the call returns, with the value or the new tree \<open>x\<close>;
  \<^item> \<open>OffType\<close>: the call returns, and the form values are no longer of the type
    \<^verbatim>\<open>SchemaField[]\<close>. A write does this where the path goes on beyond what exists: the
    library then creates the missing element or property (an object or an array, by the
    look of the next key) and assigns into it, so that an array gets holes or an element
    that is no field. Nothing throws there;
  \<^item> \<open>Untyped\<close>: every other read or write (another key, a path written otherwise,
    a value that is not an array where one is spread), about which nothing is said: no
    theorem below is about such a call.
\<close>

datatype 'a outcome = Done 'a | OffType | Untyped


datatype form_value = FieldsValue "SchemaField list" | TypeValue SchemaFieldType

text \<open>
  Reading: the result is an array (\<open>Some\<close>) or \<^verbatim>\<open>undefined\<close> (\<open>None\<close>): an index
  beyond the end of an array, a string of digits that is no array index and an absent
  \<^verbatim>\<open>fields\<close> property are \<^verbatim>\<open>undefined\<close>, and so is every path that goes on from there.
  A read changes nothing, so it is never \<open>OffType\<close>.
\<close>

fun get_array :: "string list \<Rightarrow> SchemaField list \<Rightarrow> SchemaField list option outcome"
  and get_field :: "string list \<Rightarrow> SchemaField \<Rightarrow> SchemaField list option outcome" where
  "get_array [] xs = Done (Some xs)"
| "get_array (k # ks) xs =
     (case array_index k of
        None \<Rightarrow> if is_numeral k then Done None else Untyped
      | Some i \<Rightarrow> if i < length xs then get_field ks (xs ! i) else Done None)"
| "get_field [] f = Untyped"
| "get_field (k # ks) f =
     (if k = ''fields'' then (case fields f of None \<Rightarrow> Done None | Some cs \<Rightarrow> get_array ks cs)
      else Untyped)"

definition getValues :: "string \<Rightarrow> SchemaField list \<Rightarrow> SchemaField list option outcome" where
  "getValues path fs =
     (case split CHR ''.'' path of
        k # ks \<Rightarrow> if k = ''fields'' then get_array ks fs else Untyped
      | [] \<Rightarrow> Untyped)"

text \<open>
  Writing: the library assigns in place; the model returns the new tree. \<open>put_fields\<close>
  and \<open>put_type\<close> are the assignments \<^verbatim>\<open>f.fields = cs\<close> and \<^verbatim>\<open>f.type = t\<close>. Where the
  path goes on through an element that the array does not have, or through the
  \<^verbatim>\<open>fields\<close> of a field that has none, the write is \<open>OffType\<close>.
\<close>

definition put_fields :: "SchemaField list \<Rightarrow> SchemaField \<Rightarrow> SchemaField" where
  "put_fields cs f = SchemaField (id_field f) (name f) (type f) (Some cs)"

definition put_type :: "SchemaFieldType \<Rightarrow> SchemaField \<Rightarrow> SchemaField" where
  "put_type t f = SchemaField (id_field f) (name f) t (fields f)"

fun set_array :: "string list \<Rightarrow> form_value \<Rightarrow> SchemaField list \<Rightarrow> SchemaField list outcome"
  and set_field :: "string list \<Rightarrow> form_value \<Rightarrow> SchemaField \<Rightarrow> SchemaField outcome" where
  "set_array [] v xs = Untyped"
| "set_array (k # ks) v xs =
     (case array_index k of
        None \<Rightarrow> if is_numeral k then OffType else Untyped
      | Some i \<Rightarrow>
          if i < length xs
          then (case set_field ks v (xs ! i) of
                  Done f \<Rightarrow> Done (xs[i := f])
                | OffType \<Rightarrow> OffType
                | Untyped \<Rightarrow> Untyped)
          else OffType)"
| "set_field [] v f = Untyped"
| "set_field [k] v f =
     (case v of
        FieldsValue cs \<Rightarrow> if k = ''fields'' then Done (put_fields cs f) else Untyped
      | TypeValue t \<Rightarrow> if k = ''type'' then Done (put_type t f) else Untyped)"
| "set_field (k # k' # ks) v f =
     (if k = ''fields''
      then (case fields f of
              None \<Rightarrow> OffType
            | Some cs \<Rightarrow>
                (case set_array (k' # ks) v cs of
                   Done cs' \<Rightarrow> Done (put_fields cs' f)
                 | OffType \<Rightarrow> OffType
                 | Untyped \<Rightarrow> Untyped))
      else Untyped)"

definition setValue :: "string \<Rightarrow> form_value \<Rightarrow> SchemaField list \<Rightarrow> SchemaField list outcome" where
  "setValue path v fs =
     (case split CHR ''.'' path of
        [k] \<Rightarrow> (case v of
                  FieldsValue xs \<Rightarrow> if k = ''fields'' then Done xs else Untyped
                | TypeValue t \<Rightarrow> Untyped)
      | k # k' # ks \<Rightarrow> if k = ''fields'' then set_array (k' # ks) v fs else Untyped
      | [] \<Rightarrow> Untyped)"

text \<open>
  \<^verbatim>\<open>append\<close> and \<^verbatim>\<open>remove\<close> of \<^verbatim>\<open>useFieldArray\<close> (react-hook-form 7):
  \<^verbatim>\<open>append(v)\<close> stores \<^verbatim>\<open>[...fields, v]\<close>; \<^verbatim>\<open>remove(index)\<close> with a number stores
  a copy of the array after \<^verbatim>\<open>splice(index, 1)\<close>.
\<close>

definition append :: "SchemaField \<Rightarrow> SchemaField list \<Rightarrow> SchemaField list" where
  "append v fs = fs @ [v]"

definition remove :: "int option \<Rightarrow> SchemaField list \<Rightarrow> SchemaField list" where
  "remove index fs = splice1 index fs"

section \<open>The operations of \<^verbatim>\<open>JsonSchemaBuilder\<close>\<close>

text \<open>
  \<^verbatim>\<open>v || []\<close> for a value that is an array or \<^verbatim>\<open>undefined\<close>.
\<close>

definition or_empty :: "SchemaField list option \<Rightarrow> SchemaField list" where
  "or_empty c = (case c of Some xs \<Rightarrow> xs | None \<Rightarrow> [])"

text \<open>
  \<^verbatim>\<open>crypto.randomUUID()\<close> is an input of the model: \<open>uuid\<close> is the string that the call
  returns. \<open>newField\<close> is the object literal of \<^verbatim>\<open>addField\<close>, which has no
  \<^verbatim>\<open>fields\<close> property.
\<close>

definition newField :: "string \<Rightarrow> SchemaField" where
  "newField uuid = SchemaField uuid [] String_t None"

text \<open>
  The tree the form starts from (\<^verbatim>\<open>defaultValues\<close>): one field.
\<close>

definition defaultValues :: "string \<Rightarrow> SchemaField list" where
  "defaultValues uuid = [SchemaField uuid [] String_t None]"

text \<open>
  \<^verbatim>\<open>addField(parentPath?)\<close>. \<^verbatim>\<open>if (parentPath)\<close> is false for an omitted argument
  and for the empty string. The arrow function has a block body with no \<^verbatim>\<open>return\<close>:
  the value of a call is \<^verbatim>\<open>undefined\<close>, the second component \<open>None\<close> of the result
  (\<open>Some s\<close> would be a returned string \<open>s\<close>).
\<close>

definition addField ::
  "string option \<Rightarrow> string \<Rightarrow> SchemaField list \<Rightarrow> SchemaField list outcome \<times> string option" where
  "addField parentPath uuid fs =
     (case parentPath of
        None \<Rightarrow> (Done (append (newField uuid) fs), None)
      | Some p \<Rightarrow>
          if p \<noteq> [] then
            (case getValues (p @ ''.fields'') fs of
               Done cur \<Rightarrow>
                 (let currentFields = or_empty cur
                  in (setValue (p @ ''.fields'') (FieldsValue (currentFields @ [newField uuid])) fs,
                      None))
             | OffType \<Rightarrow> (OffType, None)
             | Untyped \<Rightarrow> (Untyped, None))
          else (Done (append (newField uuid) fs), None))"

text \<open>
  \<^verbatim>\<open>removeField(path)\<close>. A path with \<^verbatim>\<open>.fields.\<close> in it is cut at its last dot
  into the path of an array and an index; any other path goes to \<^verbatim>\<open>parseInt\<close> whole.
\<close>

definition removeField :: "string \<Rightarrow> SchemaField list \<Rightarrow> SchemaField list outcome" where
  "removeField path fs =
     (if includes_str path ''.fields.'' then
        (let parts = split CHR ''.'' path;
             index = parseInt (last parts);
             parentPath = join ''.'' (butlast parts)
         in case getValues parentPath fs of
              Done cur \<Rightarrow>
                (let currentFields = or_empty cur;
                     updatedFields = splice1 index currentFields
                 in setValue parentPath (FieldsValue updatedFields) fs)
            | OffType \<Rightarrow> OffType
            | Untyped \<Rightarrow> Untyped)
      else Done (remove (parseInt path) fs))"

text \<open>
  Changing the type of a field: the \<^verbatim>\<open>Select\<close> of a \<^verbatim>\<open>FieldRow\<close> passes the chosen
  value to the \<^verbatim>\<open>onChange\<close> of the \<^verbatim>\<open>Controller\<close> named \<^verbatim>\<open>`${path}.type`\<close>, which
  stores it in the form values under that name. Nothing else is written.
\<close>

definition setFieldType :: "string \<Rightarrow> SchemaFieldType \<Rightarrow> SchemaField list \<Rightarrow> SchemaField list outcome" where
  "setFieldType path t fs = setValue (path @ ''.type'') (TypeValue t) fs"

section \<open>The paths of the rows\<close>

text \<open>
  A number in a template literal is its decimal numeral. The root rows get the paths
  \<^verbatim>\<open>`fields.${index}`\<close>, a nested row \<^verbatim>\<open>`${path}.fields.${nestedIndex}`\<close>: the path
  of the row at the indices \<open>i # is\<close> is \<open>path_of (i # is)\<close>.
\<close>

definition digit_char :: "nat \<Rightarrow> char" where
  "digit_char d = ''0123456789'' ! d"

fun show_nat :: "nat \<Rightarrow> string" where
  "show_nat n =
     (if n < 10 then [digit_char n] else show_nat (n div 10) @ [digit_char (n mod 10)])"

declare show_nat.simps [simp del]

fun path_of :: "nat list \<Rightarrow> string" where
  "path_of [] = []"
| "path_of [i] = ''fields.'' @ show_nat i"
| "path_of (i # j # is) = ''fields.'' @ show_nat i @ ''.'' @ path_of (j # is)"

section \<open>Notions for stating the claims\<close>

text \<open>
  The keys of the path of a row, in the order in which \<^verbatim>\<open>split(".")\<close> gives them.
\<close>

definition keys_of :: "nat list \<Rightarrow> string list" where
  "keys_of is = concat (map (\<lambda>i. [''fields'', show_nat i]) is)"

text \<open>
  The field at a list of indices, one index per level, when every index is within its
  array; and the tree with that field replaced.
\<close>

fun field_at :: "nat list \<Rightarrow> SchemaField list \<Rightarrow> SchemaField option" where
  "field_at [] fs = None"
| "field_at [i] fs = (if i < length fs then Some (fs ! i) else None)"
| "field_at (i # j # is) fs =
     (if i < length fs
      then (case fields (fs ! i) of Some cs \<Rightarrow> field_at (j # is) cs | None \<Rightarrow> None)
      else None)"

fun update_at :: "nat list \<Rightarrow> (SchemaField \<Rightarrow> SchemaField) \<Rightarrow> SchemaField list \<Rightarrow> SchemaField list" where
  "update_at [] g fs = fs"
| "update_at [i] g fs = fs[i := g (fs ! i)]"
| "update_at (i # j # is) g fs =
     fs[i := (case fields (fs ! i) of
                Some cs \<Rightarrow> put_fields (update_at (j # is) g cs) (fs ! i)
              | None \<Rightarrow> fs ! i)]"

text \<open>
  The children of a field, none when the property is absent: \<^verbatim>\<open>f.fields || []\<close>.
\<close>

definition children :: "SchemaField \<Rightarrow> SchemaField list" where
  "children f = or_empty (fields f)"


text \<open>
  The ids of all fields of a tree, children included (also those of a field whose type
  is not nested).
\<close>

fun ids_of :: "SchemaField list \<Rightarrow> string list"
  and ids_field :: "SchemaField \<Rightarrow> string list" where
  "ids_of [] = []"
| "ids_of (f # fs) = ids_field f @ ids_of fs"
| "ids_field (SchemaField i n t None) = [i]"
| "ids_field (SchemaField i n t (Some cs)) = i # ids_of cs"

text \<open>
  A run of the editor: the operations applied in turn to the default tree, as long as
  the tree is of its type. An \<open>AddField\<close> carries the string that its call of
  \<^verbatim>\<open>crypto.randomUUID()\<close> returns.
\<close>

datatype operation = AddField "string option" string | RemoveField string

fun apply_op :: "operation \<Rightarrow> SchemaField list \<Rightarrow> SchemaField list outcome" where
  "apply_op (AddField parentPath uuid) fs = fst (addField parentPath uuid fs)"
| "apply_op (RemoveField path) fs = removeField path fs"

fun run :: "operation list \<Rightarrow> SchemaField list \<Rightarrow> SchemaField list outcome" where
  "run [] fs = Done fs"
| "run (x # xs) fs =
     (case apply_op x fs of Done fs' \<Rightarrow> run xs fs' | OffType \<Rightarrow> OffType | Untyped \<Rightarrow> Untyped)"

fun uuids :: "operation list \<Rightarrow> string list" where
  "uuids [] = []"
| "uuids (AddField parentPath uuid # xs) = uuid # uuids xs"
| "uuids (RemoveField path # xs) = uuids xs"

section \<open>Decimal numerals\<close>

text \<open>
  The numerals that \<open>show_nat\<close> writes are what \<open>array_index\<close> and
  \<^verbatim>\<open>parseInt\<close> read back.
\<close>

lemma digit_char_cases:
  assumes "d < 10"
  shows "is_digit (digit_char d) \<and> digit_val (digit_char d) = d \<and>
         (digit_char d = CHR ''0'') = (d = 0)"
proof -
  from assms have "d \<in> {0, 1, 2, 3, 4, 5, 6, 7, 8, 9}" by auto
  then show ?thesis
    by (elim insertE emptyE) (simp_all add: digit_char_def is_digit_def digit_val_def)
qed

lemma is_digit_char: "d < 10 \<Longrightarrow> is_digit (digit_char d)"
  using digit_char_cases by simp

lemma digit_val_char: "d < 10 \<Longrightarrow> digit_val (digit_char d) = d"
  using digit_char_cases by simp

lemma digit_char_zero: "d < 10 \<Longrightarrow> (digit_char d = CHR ''0'') = (d = 0)"
  using digit_char_cases by simp

lemma is_digit_not_dot: "is_digit c \<Longrightarrow> c \<noteq> CHR ''.''"
  by (auto simp: is_digit_def)

lemma is_digit_not_space: "is_digit c \<Longrightarrow> \<not> is_space c"
  by (auto simp: is_digit_def is_space_def)

lemma is_digit_radix10: "is_digit c \<Longrightarrow> radix_digit 10 c = Some (digit_val c)"
  by (auto simp: is_digit_def radix_digit_def digit_val_def)

lemma show_nat_digits: "list_all is_digit (show_nat n)"
proof (induction n rule: show_nat.induct)
  case (1 n)
  show ?case
  proof (cases "n < 10")
    case True
    then show ?thesis by (subst show_nat.simps) (simp add: is_digit_char)
  next
    case False
    then show ?thesis using 1 by (subst show_nat.simps) (simp add: is_digit_char)
  qed
qed

lemma show_nat_nonempty: "show_nat n \<noteq> []"
  by (subst show_nat.simps) simp

lemma digits_val_snoc: "digits_val (s @ [c]) = 10 * digits_val s + digit_val c"
  by (simp add: digits_val_def)

lemma digits_val_show_nat: "digits_val (show_nat n) = n"
proof (induction n rule: show_nat.induct)
  case (1 n)
  show ?case
  proof (cases "n < 10")
    case True
    then show ?thesis by (subst show_nat.simps) (simp add: digits_val_def digit_val_char)
  next
    case False
    then show ?thesis using 1
      by (subst show_nat.simps) (simp add: digits_val_snoc digit_val_char)
  qed
qed

lemma hd_show_nat: "0 < n \<Longrightarrow> hd (show_nat n) \<noteq> CHR ''0''"
proof (induction n rule: show_nat.induct)
  case (1 n)
  show ?case
  proof (cases "n < 10")
    case True
    then show ?thesis using 1(2) by (subst show_nat.simps) (simp add: digit_char_zero)
  next
    case False
    then have "0 < n div 10" by simp
    then show ?thesis using 1 False
      by (subst show_nat.simps) (simp add: show_nat_nonempty)
  qed
qed

lemma show_nat_0: "show_nat 0 = ''0''"
  by (subst show_nat.simps) (simp add: digit_char_def)

lemma array_index_show_nat: "i < array_limit \<Longrightarrow> array_index (show_nat i) = Some i"
proof (cases "i = 0")
  case True
  assume "i < array_limit"
  then show ?thesis using True
    by (simp add: array_index_def show_nat_0 is_digit_def digits_val_def digit_val_def)
next
  case False
  assume "i < array_limit"
  then show ?thesis using False hd_show_nat[of i]
    by (simp add: array_index_def show_nat_nonempty show_nat_digits digits_val_show_nat
       )
qed



lemma show_nat_no_dot: "CHR ''.'' \<notin> set (show_nat n)"
  using show_nat_digits[of n] is_digit_not_dot by (auto simp: list_all_iff)

lemma array_index_small:
  "array_index ''0'' = Some 0" "array_index ''1'' = Some 1" "array_index ''2'' = Some 2"
  by (simp_all add: array_index_def is_digit_def digits_val_def digit_val_def array_limit_def)

lemma array_index_b: "array_index ''b'' = None"
  by (simp add: array_index_def is_digit_def)

lemma array_index_x: "array_index ''x'' = None"
  by (simp add: array_index_def is_digit_def)

lemma show_nat_small:
  "show_nat 0 = ''0''" "show_nat (Suc 0) = ''1''" "show_nat 1 = ''1''" "show_nat 4 = ''4''"
  by (simp_all add: show_nat.simps digit_char_def)

lemma limit_0: "\<forall>i\<in>set [0]. i < array_limit"
  by (simp add: array_limit_def)

section \<open>Properties of the projection\<close>

text \<open>
  What \<^verbatim>\<open>{ ...acc, [k]: v }\<close> does to the keys, the values and the order of an
  object, and what the loop of \<open>generateSchema\<close> makes of it.
\<close>

lemma keys_insert_index: "fst ` set (insert_index i k v ps) = insert k (fst ` set ps)"
proof (induction ps)
  case Nil
  then show ?case by simp
next
  case (Cons p ps)
  obtain k' v' where p: "p = (k', v')" by (cases p)
  show ?case
  proof (cases "array_index k'")
    case None
    then show ?thesis by (simp add: p)
  next
    case (Some j)
    then show ?thesis using Cons.IH by (simp add: p insert_commute)
  qed
qed

lemma keys_overwrite: "map fst (map (\<lambda>p. if fst p = k then (k, v) else p) ps) = map fst ps"
  by (induction ps) auto

lemma spread_with_old:
  "k \<in> fst ` set acc \<Longrightarrow> spread_with acc k v = map (\<lambda>p. if fst p = k then (k, v) else p) acc"
  by (simp add: spread_with_def)

lemma spread_with_new:
  "k \<notin> fst ` set acc \<Longrightarrow>
   spread_with acc k v =
     (case array_index k of Some i \<Rightarrow> insert_index i k v acc | None \<Rightarrow> acc @ [(k, v)])"
  by (simp add: spread_with_def)

lemma keys_spread_with: "fst ` set (spread_with acc k v) = insert k (fst ` set acc)"
proof (cases "k \<in> fst ` set acc")
  case True
  have "fst ` set (spread_with acc k v) = set (map fst (spread_with acc k v))" by simp
  also have "\<dots> = set (map fst acc)" using True by (simp only: spread_with_old keys_overwrite)
  finally show ?thesis using True by auto
next
  case False
  then show ?thesis
    by (cases "array_index k") (simp_all add: spread_with_new keys_insert_index)
qed

lemma map_of_insert_index:
  "k \<notin> fst ` set ps \<Longrightarrow> map_of (insert_index i k v ps) = (map_of ps)(k \<mapsto> v)"
  by (induction ps) (auto split: option.splits simp: fun_upd_twist)

lemma map_of_overwrite:
  "k \<in> fst ` set ps \<Longrightarrow>
   map_of (map (\<lambda>p. if fst p = k then (k, v) else p) ps) = (map_of ps)(k \<mapsto> v)"
proof (induction ps)
  case Nil
  then show ?case by simp
next
  case (Cons p ps)
  show ?case
  proof (cases "k \<in> fst ` set ps")
    case True
    then show ?thesis using Cons.IH by (cases p) (auto simp: fun_upd_twist)
  next
    case False
    then have "map (\<lambda>p. if fst p = k then (k, v) else p) ps = ps"
      by (induction ps) auto
    then show ?thesis using Cons.prems False by (cases p) auto
  qed
qed

lemma map_of_snoc:
  "k \<notin> fst ` set ps \<Longrightarrow> map_of (ps @ [(k, v)]) = (map_of ps)(k \<mapsto> v)"
  by (induction ps) (auto simp: fun_upd_twist)

lemma map_of_spread_with: "map_of (spread_with acc k v) = (map_of acc)(k \<mapsto> v)"
proof (cases "k \<in> fst ` set acc")
  case True
  then show ?thesis
    by (simp only: spread_with_old map_of_overwrite)
next
  case False
  then show ?thesis
    by (cases "array_index k")
      (simp_all only: spread_with_new map_of_insert_index map_of_snoc option.case not_False_eq_True)
qed

lemma distinct_insert_index:
  "k \<notin> fst ` set ps \<Longrightarrow> distinct (map fst ps) \<Longrightarrow> distinct (map fst (insert_index i k v ps))"
  by (induction ps) (auto split: option.splits simp: keys_insert_index)

lemma distinct_spread_with:
  assumes "distinct (map fst acc)"
  shows "distinct (map fst (spread_with acc k v))"
proof (cases "k \<in> fst ` set acc")
  case True
  then show ?thesis using assms
    by (simp only: spread_with_old keys_overwrite)
next
  case False
  then show ?thesis using assms
    by (cases "array_index k") (simp_all add: spread_with_new distinct_insert_index)
qed

lemma keys_reduce_fields:
  "fst ` set (reduce_fields acc fs) = fst ` set acc \<union> name ` set fs"
  by (induction fs arbitrary: acc) (auto simp: keys_spread_with)

lemma distinct_reduce_fields:
  "distinct (map fst acc) \<Longrightarrow> distinct (map fst (reduce_fields acc fs))"
  by (induction fs arbitrary: acc) (simp_all add: distinct_spread_with)

lemma map_of_reduce_fields:
  "map_of (reduce_fields acc fs) = map_of acc ++ map_of (rev (map (\<lambda>f. (name f, fieldValue f)) fs))"
  by (induction fs arbitrary: acc) (simp_all add: map_of_spread_with)

lemma nonindex_insert_index:
  "is_index k \<Longrightarrow>
   filter (\<lambda>k. \<not> is_index k) (map fst (insert_index i k v ps)) =
   filter (\<lambda>k. \<not> is_index k) (map fst ps)"
  by (induction ps) (auto split: option.splits)

lemma nonindex_spread_with:
  "filter (\<lambda>k. \<not> is_index k) (map fst (spread_with acc k v)) =
     (if is_index k \<or> k \<in> set (filter (\<lambda>k. \<not> is_index k) (map fst acc))
      then filter (\<lambda>k. \<not> is_index k) (map fst acc)
      else filter (\<lambda>k. \<not> is_index k) (map fst acc) @ [k])"
proof (cases "k \<in> fst ` set acc")
  case True
  then show ?thesis
    by (simp only: spread_with_old keys_overwrite) auto
next
  case False
  show ?thesis
  proof (cases "array_index k")
    case None
    then show ?thesis using False by (simp add: spread_with_new is_index_def)
  next
    case (Some i)
    then have "is_index k" by (simp add: is_index_def)
    then show ?thesis using False Some by (simp add: spread_with_new nonindex_insert_index)
  qed
qed

lemma nonindex_reduce_fields:
  "filter (\<lambda>k. \<not> is_index k) (map fst (reduce_fields acc fs)) =
   first_occurrences (filter (\<lambda>k. \<not> is_index k) (map fst acc))
     (filter (\<lambda>k. \<not> is_index k) (map name fs))"
proof (induction fs arbitrary: acc)
  case Nil
  then show ?case by simp
next
  case (Cons f fs)
  show ?case
    by (simp only: reduce_fields.simps Cons.IH nonindex_spread_with list.map filter.simps
        first_occurrences.simps split: if_splits) auto
qed

lemma key_le_trans: "key_le a b \<Longrightarrow> key_le b c \<Longrightarrow> key_le a c"
  by (auto simp: key_le_def split: option.splits)

lemma sorted_insert_index:
  "array_index k = Some i \<Longrightarrow> sorted_wrt key_le (map fst ps) \<Longrightarrow>
   sorted_wrt key_le (map fst (insert_index i k v ps))"
proof (induction ps)
  case Nil
  then show ?case by simp
next
  case (Cons p ps)
  obtain k' v' where p: "p = (k', v')" by (cases p)
  show ?case
  proof (cases "array_index k'")
    case None
    have "key_le k k'" using None Cons.prems(1) by (simp add: key_le_def)
    then have "\<forall>x\<in>set (map fst (p # ps)). key_le k x"
      using Cons.prems(2) p by (auto intro: key_le_trans)
    then show ?thesis using None Cons.prems(2) p by simp
  next
    case (Some j)
    show ?thesis
    proof (cases "j < i")
      case True
      have "\<forall>x\<in>fst ` set (insert_index i k v ps). key_le k' x"
        using Cons.prems p Some True by (auto simp: keys_insert_index key_le_def)
      then show ?thesis using Cons p Some True by simp
    next
      case False
      have "key_le k k'" using Some False Cons.prems(1) by (simp add: key_le_def)
      then have "\<forall>x\<in>set (map fst (p # ps)). key_le k x"
        using Cons.prems(2) p by (auto intro: key_le_trans)
      then show ?thesis using Some False Cons.prems(2) p by simp
    qed
  qed
qed

lemma sorted_snoc_nonindex:
  "array_index k = None \<Longrightarrow> sorted_wrt key_le ks \<Longrightarrow> sorted_wrt key_le (ks @ [k])"
  by (auto simp: sorted_wrt_append key_le_def split: option.splits)

lemma sorted_spread_with:
  assumes "sorted_wrt key_le (map fst acc)"
  shows "sorted_wrt key_le (map fst (spread_with acc k v))"
proof (cases "k \<in> fst ` set acc")
  case True
  then show ?thesis using assms
    by (simp only: spread_with_old keys_overwrite)
next
  case False
  then show ?thesis using assms
    by (cases "array_index k") (simp_all add: spread_with_new sorted_insert_index sorted_snoc_nonindex)
qed

lemma sorted_reduce_fields:
  "sorted_wrt key_le (map fst acc) \<Longrightarrow> sorted_wrt key_le (map fst (reduce_fields acc fs))"
  by (induction fs arbitrary: acc) (simp_all add: sorted_spread_with)

lemma generateSchema_single: "generateSchema [f] = JObject [(name f, fieldValue f)]"
  by (cases "array_index (name f)") (simp_all add: spread_with_def)

lemma duplicate_x:
  "generateSchema [SchemaField i ''x'' String_t c, SchemaField i' ''x'' Number_t c'] =
     JObject [(''x'', JString ''number'')]"
  by (simp add: spread_with_def array_index_x)

lemma fieldValue_not_nested:
  "type f \<noteq> Nested_t \<Longrightarrow>
   fieldValue f = JString (if type f = String_t then ''string'' else ''number'')"
  by (cases f; cases "type f") auto

lemma last_writer:
  assumes "name f \<notin> name ` set gs"
  shows "map_of (props (generateSchema (fs @ f # gs))) (name f) = Some (fieldValue f)"
proof -
  have "map_of (rev (map (\<lambda>f. (name f, fieldValue f)) gs)) (name f) = None"
    using assms by (simp add: map_of_eq_None_iff image_image)
  then show ?thesis
    by (simp add: map_of_reduce_fields map_add_def)
qed

lemma unnamed_collide:
  "\<forall>f\<in>set fs. name f = [] \<Longrightarrow>
   reduce_fields [([], v)] fs = [([], if fs = [] then v else fieldValue (last fs))]"
  by (induction fs arbitrary: v) (simp_all add: spread_with_def)

lemma unnamed_projection:
  assumes "fs \<noteq> []" "\<forall>f\<in>set fs. name f = []"
  shows "generateSchema fs = JObject [([], fieldValue (last fs))]"
proof -
  obtain f gs where fs: "fs = f # gs" using assms(1) by (cases fs) auto
  have "reduce_fields [] fs = reduce_fields [([], fieldValue f)] gs"
    using assms(2) by (simp add: fs spread_with_def array_index_def)
  also have "\<dots> = [([], if gs = [] then fieldValue f else fieldValue (last gs))]"
    using assms(2) by (intro unnamed_collide) (simp add: fs)
  finally show ?thesis by (simp add: fs)
qed

section \<open>Splitting and joining paths\<close>

text \<open>
  The path of a row splits into the keys of the row, and only the path of a nested row
  contains \<^verbatim>\<open>.fields.\<close>.
\<close>

lemma split_nonempty: "split sep s \<noteq> []"
  by (induction s) (auto split: list.splits)

lemma split_no_sep: "sep \<notin> set a \<Longrightarrow> split sep a = [a]"
  by (induction a) auto

lemma split_append_sep: "split sep (a @ sep # b) = split sep a @ split sep b"
proof (induction a)
  case Nil
  then show ?case by simp
next
  case (Cons c a)
  obtain p ps where "split sep a = p # ps"
    using split_nonempty[of sep a] by (cases "split sep a") auto
  then show ?case using Cons by simp
qed

lemma split_join:
  "ks \<noteq> [] \<Longrightarrow> \<forall>k\<in>set ks. sep \<notin> set k \<Longrightarrow> split sep (join [sep] ks) = ks"
proof (induction "[sep]" ks rule: join.induct)
  case 1
  then show ?case by simp
next
  case (2 p)
  then show ?case by (simp add: split_no_sep)
next
  case (3 p q ps)
  then show ?case by (simp add: split_append_sep split_no_sep)
qed

lemma split_fields_dot: "split CHR ''.'' (''fields.'' @ s) = ''fields'' # split CHR ''.'' s"
proof -
  have "split CHR ''.'' (''fields'' @ CHR ''.'' # s) = split CHR ''.'' ''fields'' @ split CHR ''.'' s"
    by (rule split_append_sep)
  then show ?thesis by simp
qed

lemma keys_of_Cons: "keys_of (i # is) = ''fields'' # show_nat i # keys_of is"
  by (simp add: keys_of_def)

lemma keys_of_snoc: "keys_of (is @ [j]) = keys_of is @ [''fields'', show_nat j]"
  by (simp add: keys_of_def)

lemma keys_of_no_dot: "\<forall>k\<in>set (keys_of is). CHR ''.'' \<notin> set k"
  using show_nat_no_dot by (induction "is") (auto simp: keys_of_def)

lemma split_path_of: "is \<noteq> [] \<Longrightarrow> split CHR ''.'' (path_of is) = keys_of is"
proof (induction "is" rule: path_of.induct)
  case 1
  then show ?case by simp
next
  case (2 i)
  have "split CHR ''.'' (''fields.'' @ show_nat i) = [''fields'', show_nat i]"
    by (simp only: split_fields_dot split_no_sep[OF show_nat_no_dot])
  then show ?case by (simp add: keys_of_def)
next
  case (3 i j "is")
  have "split CHR ''.'' (''fields.'' @ show_nat i @ ''.'' @ path_of (j # is)) =
        ''fields'' # show_nat i # split CHR ''.'' (path_of (j # is))"
    using split_append_sep[of "CHR ''.''" "show_nat i" "path_of (j # is)"]
    by (simp only: split_fields_dot split_no_sep[OF show_nat_no_dot]) simp
  then show ?case using 3 by (simp add: keys_of_def)
qed

lemma split_path_of_dot:
  "is \<noteq> [] \<Longrightarrow> split CHR ''.'' (path_of is @ ''.'' @ s) = keys_of is @ split CHR ''.'' s"
  using split_append_sep[of "CHR ''.''" "path_of is" s] by (simp add: split_path_of)

lemma includes_prefix: "includes_str (pat @ b) pat"
proof (cases "pat @ b")
  case Nil
  then show ?thesis by simp
next
  case (Cons c cs)
  have "take (length pat) (pat @ b) = pat" by simp
  then show ?thesis unfolding Cons by simp
qed

lemma includes_append: "includes_str (a @ pat @ b) pat"
proof (induction a)
  case Nil
  then show ?case using includes_prefix by simp
next
  case (Cons c a)
  then show ?case by simp
qed

lemma includes_decompose: "includes_str s pat \<Longrightarrow> \<exists>a b. s = a @ pat @ b"
proof (induction s)
  case Nil
  then show ?case by simp
next
  case (Cons c s)
  show ?case
  proof (cases "take (length pat) (c # s) = pat")
    case True
    then have "c # s = [] @ pat @ drop (length pat) (c # s)"
      by (metis append_Nil append_take_drop_id)
    then show ?thesis by blast
  next
    case False
    then have "includes_str s pat" using Cons.prems by simp
    then obtain a b where "s = a @ pat @ b" using Cons.IH by blast
    then have "c # s = (c # a) @ pat @ b" by simp
    then show ?thesis by blast
  qed
qed

lemma root_path_not_nested: "\<not> includes_str (path_of [i]) ''.fields.''"
proof
  assume "includes_str (path_of [i]) ''.fields.''"
  then obtain a b where ab: "path_of [i] = a @ ''.fields.'' @ b"
    using includes_decompose by blast
  have "filter (\<lambda>c. c = CHR ''.'') (show_nat i) = []"
    using show_nat_no_dot[of i] by (auto simp add: filter_empty_conv)
  then have one: "length (filter (\<lambda>c. c = CHR ''.'') (path_of [i])) = 1"
    by simp
  have "length (filter (\<lambda>c. c = CHR ''.'') (a @ ''.fields.'' @ b)) \<ge> 2"
    by simp
  then show False using one unfolding ab by linarith
qed

lemma nested_path_includes: "includes_str (path_of (i # j # is)) ''.fields.''"
proof -
  have "path_of (i # j # is) = (''fields.'' @ show_nat i) @ ''.fields.'' @ drop 7 (path_of (j # is))"
    by (cases "is") (simp_all)
  then show ?thesis by (simp only: includes_append)
qed

lemma path_of_nonempty: "is \<noteq> [] \<Longrightarrow> path_of is \<noteq> []"
  by (cases "is" rule: path_of.cases) simp_all

section \<open>\<^verbatim>\<open>parseInt\<close> and \<^verbatim>\<open>splice\<close>\<close>

text \<open>
  \<^verbatim>\<open>parseInt\<close> reads a decimal numeral as its number and the path of a root row as
  \<^verbatim>\<open>NaN\<close>.
\<close>

lemma radix_val_digits: "list_all is_digit s \<Longrightarrow> radix_val 10 s = digits_val s"
proof (induction s rule: rev_induct)
  case Nil
  then show ?case by (simp add: radix_val_def digits_val_def)
next
  case (snoc c s)
  then show ?case by (simp add: radix_val_def digits_val_def is_digit_radix10)
qed

lemma takeWhile_digits:
  "list_all is_digit s \<Longrightarrow> takeWhile (\<lambda>c. radix_digit 10 c \<noteq> None) s = s"
  by (induction s) (simp_all add: is_digit_radix10 del: not_None_eq)

lemma dropWhile_digits: "list_all is_digit s \<Longrightarrow> dropWhile is_space s = s"
  by (cases s) (simp_all add: is_digit_not_space)

lemma digits_no_sign:
  "list_all is_digit s \<Longrightarrow> take 1 s \<noteq> ''-'' \<and> take 1 s \<noteq> ''+''"
  by (cases s) (auto simp: is_digit_def)

lemma digits_no_hex:
  "list_all is_digit s \<Longrightarrow> take 2 s \<noteq> ''0x'' \<and> take 2 s \<noteq> ''0X''"
proof (cases s)
  case Nil
  then show ?thesis by simp
next
  case (Cons c cs)
  assume "list_all is_digit s"
  then show ?thesis unfolding Cons by (cases cs) (auto simp: is_digit_def)
qed

lemma parseInt_digits:
  assumes "list_all is_digit s" "s \<noteq> []"
  shows "parseInt s = Some (int (digits_val s))"
proof -
  have sign: "(take 1 s = ''-'') = False" "(take 1 s = ''+'') = False"
    using digits_no_sign[OF assms(1)] by simp_all
  have hex: "(take 2 s = ''0x'') = False" "(take 2 s = ''0X'') = False"
    using digits_no_hex[OF assms(1)] by simp_all
  show ?thesis
    using assms sign hex
    by (simp add: parseInt_def Let_def dropWhile_digits takeWhile_digits radix_val_digits
        del: not_None_eq)
qed

lemma parseInt_show_nat: "parseInt (show_nat j) = Some (int j)"
  using parseInt_digits[OF show_nat_digits show_nat_nonempty] by (simp only: digits_val_show_nat)

lemma parseInt_fields: "parseInt (''fields.'' @ s) = None"
  by (simp add: parseInt_def is_space_def radix_digit_def is_digit_def)

lemma parseInt_root_path: "parseInt (path_of [i]) = None"
  by (simp only: path_of.simps parseInt_fields)

lemma parseInt_0: "parseInt ''0'' = Some 0"
  by (simp add: parseInt_def is_space_def radix_digit_def radix_val_def is_digit_def digit_val_def)

lemma parseInt_fields_0: "parseInt ''fields.0'' = None"
  using parseInt_fields[of "''0''"] by simp

lemma splice1_index:
  "splice1 (Some (int j)) xs = take j xs @ drop (Suc j) xs"
  by (cases "j \<le> length xs") (simp_all add: splice1_def Let_def min_def)

lemma splice1_NaN: "splice1 None xs = drop 1 xs"
  by (simp add: splice1_def)

section \<open>Reading and writing at the path of a row\<close>

text \<open>
  At the path of an existing field, \<open>getValues\<close> and \<open>setValue\<close> read and write
  that field.
\<close>

lemma field_at_nonempty: "field_at is fs = Some f \<Longrightarrow> is \<noteq> []"
  by (cases "is") auto

lemma field_at_parent:
  "field_at (is @ [j]) fs = Some p \<Longrightarrow> is \<noteq> [] \<Longrightarrow> \<exists>q. field_at is fs = Some q"
proof (induction "is" fs rule: field_at.induct)
  case (1 fs)
  then show ?case by simp
next
  case (2 i fs)
  then show ?case by (auto split: if_splits option.splits)
next
  case (3 i k "is" fs)
  then show ?case by (auto split: if_splits option.splits)
qed

lemma get_array_fields:
  "\<forall>i\<in>set is. i < array_limit \<Longrightarrow> field_at is fs = Some f \<Longrightarrow>
   get_array (tl (keys_of is) @ [''fields'']) fs = Done (fields f)"
proof (induction "is" fs rule: field_at.induct)
  case (1 fs)
  then show ?case by simp
next
  case (2 i fs)
  then show ?case
    by (auto simp: keys_of_Cons keys_of_def array_index_show_nat
        split: if_splits option.splits)
next
  case (3 i j "is" fs)
  then show ?case
    by (auto simp: keys_of_Cons array_index_show_nat
        split: if_splits option.splits)
qed

lemma set_field_fields: "set_field [''fields''] (FieldsValue cs) f' = Done (put_fields cs f')"
  by simp

lemma set_field_type: "set_field [''type''] (TypeValue t) f' = Done (put_type t f')"
  by simp

lemma set_array_last:
  assumes "\<And>f'. set_field [k] v f' = Done (g f')"
  shows "\<forall>i\<in>set is. i < array_limit \<Longrightarrow> field_at is fs = Some f \<Longrightarrow>
   set_array (tl (keys_of is) @ [k]) v fs = Done (update_at is g fs)"
proof (induction "is" fs rule: field_at.induct)
  case (1 fs)
  then show ?case by simp
next
  case (2 i fs)
  then show ?case
    by (auto simp: assms keys_of_Cons keys_of_def array_index_show_nat
        simp del: set_field.simps split: if_splits option.splits)
next
  case (3 i j "is" fs)
  then show ?case
    by (auto simp: keys_of_Cons array_index_show_nat
        split: if_splits option.splits)
qed


lemma field_at_update_at:
  "field_at is fs = Some p \<Longrightarrow> field_at is (update_at is g fs) = Some (g p)"
proof (induction "is" fs rule: field_at.induct)
  case (1 fs)
  then show ?case by simp
next
  case (2 i fs)
  then show ?case by (auto split: if_splits)
next
  case (3 i j "is" fs)
  then show ?case by (auto simp: put_fields_def split: if_splits option.splits)
qed

lemma getValues_fields:
  assumes "\<forall>i\<in>set is. i < array_limit" "field_at is fs = Some f"
  shows "getValues (path_of is @ ''.fields'') fs = Done (fields f)"
proof -
  obtain i is' where eq: "is = i # is'" using field_at_nonempty[OF assms(2)] by (cases "is") auto
  have "split CHR ''.'' (path_of is @ ''.'' @ ''fields'') = keys_of is @ [''fields'']"
    by (subst split_path_of_dot) (simp_all add: eq)
  then have "getValues (path_of is @ ''.fields'') fs = get_array (tl (keys_of is) @ [''fields'']) fs"
    by (simp add: getValues_def eq keys_of_Cons)
  then show ?thesis using get_array_fields[OF assms] by simp
qed

lemma setValue_last:
  assumes "\<And>f'. set_field [k] v f' = Done (g f')" "CHR ''.'' \<notin> set k"
    and "\<forall>i\<in>set is. i < array_limit" "field_at is fs = Some f"
  shows "setValue (path_of is @ ''.'' @ k) v fs = Done (update_at is g fs)"
proof -
  obtain i is' where eq: "is = i # is'" using field_at_nonempty[OF assms(4)] by (cases "is") auto
  have "split CHR ''.'' (path_of is @ ''.'' @ k) = keys_of is @ [k]"
    using assms(2) by (subst split_path_of_dot) (simp_all add: eq split_no_sep)
  then have "setValue (path_of is @ ''.'' @ k) v fs = set_array (tl (keys_of is) @ [k]) v fs"
    by (simp add: setValue_def eq keys_of_Cons)
  then show ?thesis using set_array_last[OF assms(1,3,4)] by simp
qed





section \<open>The operations at the path of a row\<close>

text \<open>
  What \<open>addField\<close>, \<open>removeField\<close> and \<open>setFieldType\<close> do when they are called
  as the rows call them.
\<close>

lemma addField_root: "addField None uuid fs = (Done (fs @ [newField uuid]), None)"
  by (simp add: addField_def append_def)

lemma addField_nested:
  assumes "\<forall>i\<in>set is. i < array_limit" "field_at is fs = Some p"
  shows "addField (Some (path_of is)) uuid fs =
         (Done (update_at is (put_fields (children p @ [newField uuid])) fs), None)"
proof -
  have ne: "path_of is \<noteq> []" using field_at_nonempty[OF assms(2)] by (rule path_of_nonempty)
  have g: "getValues (path_of is @ ''.fields'') fs = Done (fields p)"
    using getValues_fields[OF assms] .
  have s: "setValue (path_of is @ ''.fields'') (FieldsValue (children p @ [newField uuid])) fs =
           Done (update_at is (put_fields (children p @ [newField uuid])) fs)"
    using setValue_last[OF set_field_fields _ assms, of "children p @ [newField uuid]"] by simp
  show ?thesis
    using ne s by (simp add: addField_def g children_def or_empty_def Let_def)
qed

lemma setFieldType_at:
  assumes "\<forall>i\<in>set is. i < array_limit" "field_at is fs = Some p"
  shows "setFieldType (path_of is) t fs = Done (update_at is (put_type t) fs)"
  using setValue_last[OF set_field_type _ assms, of t] by (simp add: setFieldType_def)

lemma setFieldType_root0:
  "setFieldType ''fields.0'' t [f] = Done [put_type t f]"
  by (simp add: setFieldType_def setValue_def array_index_small)

lemma removeField_root: "removeField (path_of [i]) fs = Done (drop 1 fs)"
  using root_path_not_nested[of i]
  by (simp only: removeField_def if_False parseInt_root_path remove_def splice1_NaN)

lemma removeField_nested_unfold:
  assumes "js \<noteq> []"
  shows "removeField (path_of (js @ [j])) fs =
     (case get_array (tl (keys_of js) @ [''fields'']) fs of
        Done cur \<Rightarrow>
          set_array (tl (keys_of js) @ [''fields''])
            (FieldsValue (splice1 (Some (int j)) (or_empty cur))) fs
      | OffType \<Rightarrow> OffType
      | Untyped \<Rightarrow> Untyped)"
proof -
  obtain i js' where eq: "js = i # js'" using assms by (cases js) auto
  have inc: "includes_str (path_of (js @ [j])) ''.fields.''"
    unfolding eq by (cases js') (simp_all only: append_Cons append_Nil nested_path_includes)
  have parts: "split CHR ''.'' (path_of (js @ [j])) = keys_of js @ [''fields'', show_nat j]"
    by (simp add: split_path_of keys_of_snoc)
  have last_part: "last (keys_of js @ [''fields'', show_nat j]) = show_nat j" by simp
  have but: "butlast (keys_of js @ [''fields'', show_nat j]) = keys_of js @ [''fields'']"
    by (simp add: butlast_append)
  have nodot: "\<forall>k\<in>set (keys_of js @ [''fields'']). CHR ''.'' \<notin> set k"
    using keys_of_no_dot[of js] by auto
  have sp: "split CHR ''.'' (join ''.'' (keys_of js @ [''fields''])) = keys_of js @ [''fields'']"
    using split_join[OF _ nodot] by simp
  have ks: "keys_of js @ [''fields''] = ''fields'' # show_nat i # (keys_of js' @ [''fields''])"
    by (simp add: eq keys_of_Cons)
  have tl: "tl (keys_of js) @ [''fields''] = show_nat i # (keys_of js' @ [''fields''])"
    by (simp add: eq keys_of_Cons)
  have g: "getValues (join ''.'' (keys_of js @ [''fields''])) fs =
      get_array (tl (keys_of js) @ [''fields'']) fs"
    unfolding getValues_def sp unfolding ks tl by simp
  have s: "setValue (join ''.'' (keys_of js @ [''fields''])) v fs =
      set_array (tl (keys_of js) @ [''fields'']) v fs" for v
    unfolding setValue_def sp unfolding ks tl by simp
  show ?thesis
    using inc
    by (simp add: removeField_def parts last_part but parseInt_show_nat g s Let_def
        del: get_array.simps set_array.simps split: outcome.splits)
qed

lemma removeField_nested:
  assumes "\<forall>i\<in>set is. i < array_limit" "field_at is fs = Some p"
  shows "removeField (path_of (is @ [j])) fs =
         Done (update_at is (put_fields (take j (children p) @ drop (Suc j) (children p))) fs)"
  using get_array_fields[OF assms] set_array_last[OF set_field_fields assms]
  by (simp add: removeField_nested_unfold[OF field_at_nonempty[OF assms(2)]] splice1_index
      children_def)


lemma rendered_operations_complete:
  "\<exists>fs'. apply_op (AddField None uuid) fs = Done fs'"
  "\<forall>i\<in>set is. i < array_limit \<Longrightarrow> field_at is fs = Some p \<Longrightarrow>
     \<exists>fs'. apply_op (AddField (Some (path_of is)) uuid) fs = Done fs'"
  "\<forall>i\<in>set is. i < array_limit \<Longrightarrow> field_at is fs = Some p \<Longrightarrow>
     \<exists>fs'. apply_op (RemoveField (path_of is)) fs = Done fs'"
proof -
  show "\<exists>fs'. apply_op (AddField None uuid) fs = Done fs'"
    by (simp add: addField_root)
  show "\<exists>fs'. apply_op (AddField (Some (path_of is)) uuid) fs = Done fs'"
    if "\<forall>i\<in>set is. i < array_limit" "field_at is fs = Some p"
    using addField_nested[OF that] by simp
  show "\<exists>fs'. apply_op (RemoveField (path_of is)) fs = Done fs'"
    if b: "\<forall>i\<in>set is. i < array_limit" and at: "field_at is fs = Some p"
  proof -
    have "is \<noteq> []" using at by (rule field_at_nonempty)
    then obtain js j where js: "is = js @ [j]" by (metis rev_exhaust)
    show ?thesis
    proof (cases "js = []")
      case True
      then show ?thesis using js removeField_root[of j fs] by simp
    next
      case False
      then obtain q where "field_at js fs = Some q" using field_at_parent at js by blast
      moreover have "\<forall>i\<in>set js. i < array_limit" using b js by simp
      ultimately show ?thesis using removeField_nested[of js fs q j] js by simp
    qed
  qed
qed

section \<open>The projection of an updated tree\<close>

text \<open>
  The projection reads a field through its name and its value only.
\<close>

lemma reduce_fields_cong:
  "map (\<lambda>f. (name f, fieldValue f)) fs = map (\<lambda>f. (name f, fieldValue f)) fs' \<Longrightarrow>
   reduce_fields acc fs = reduce_fields acc fs'"
proof (induction fs arbitrary: fs' acc)
  case Nil
  then show ?case by simp
next
  case (Cons f fs)
  then obtain f' gs where fs': "fs' = f' # gs" by (cases fs') auto
  then show ?case using Cons by simp
qed

lemma reduce_fields_update:
  assumes "i < length fs" "name e = name (fs ! i)" "fieldValue e = fieldValue (fs ! i)"
  shows "reduce_fields acc (fs[i := e]) = reduce_fields acc fs"
proof -
  have "map (\<lambda>f. (name f, fieldValue f)) (fs[i := e]) =
        (map (\<lambda>f. (name f, fieldValue f)) fs)[i := (name (fs ! i), fieldValue (fs ! i))]"
    using assms by (simp add: map_update)
  also have "\<dots> = map (\<lambda>f. (name f, fieldValue f)) fs"
    using assms(1) by (metis (no_types, lifting) list_update_id map_update)
  finally show ?thesis by (rule reduce_fields_cong)
qed

lemma fieldValue_put_fields:
  "reduce_fields [] cs' = reduce_fields [] cs \<Longrightarrow> fields f = Some cs \<Longrightarrow>
   fieldValue (put_fields cs' f) = fieldValue f"
  by (cases f; cases "type f") (simp_all add: put_fields_def)

lemma projection_update_at:
  "field_at is fs = Some p \<Longrightarrow> name (g p) = name p \<Longrightarrow> fieldValue (g p) = fieldValue p \<Longrightarrow>
   reduce_fields acc (update_at is g fs) = reduce_fields acc fs"
proof (induction "is" fs arbitrary: acc rule: field_at.induct)
  case (1 fs)
  then show ?case by simp
next
  case (2 i fs)
  then show ?case by (auto simp: reduce_fields_update split: if_splits)
next
  case (3 i j "is" fs)
  from 3(2) obtain cs where i: "i < length fs" and cs: "fields (fs ! i) = Some cs"
    and at: "field_at (j # is) cs = Some p"
    by (auto split: if_splits option.splits)
  have "reduce_fields [] (update_at (j # is) g cs) = reduce_fields [] cs"
    using 3(1)[OF i cs at 3(3,4)] .
  then have "fieldValue (put_fields (update_at (j # is) g cs) (fs ! i)) = fieldValue (fs ! i)"
    using cs by (rule fieldValue_put_fields)
  moreover have "name (put_fields (update_at (j # is) g cs) (fs ! i)) = name (fs ! i)"
    by (simp add: put_fields_def)
  ultimately show ?case using i cs by (simp add: reduce_fields_update)
qed

lemma fieldValue_put_fields_not_nested:
  "type p \<noteq> Nested_t \<Longrightarrow> fieldValue (put_fields cs p) = fieldValue p"
  by (cases p; cases "type p") (simp_all add: put_fields_def)

section \<open>The ids of a tree\<close>

text \<open>
  A write of children changes the ids of the tree by those of the children it replaces.
\<close>

lemma distinct_submultiset:
  assumes "mset xs \<subseteq># mset ys" "distinct ys"
  shows "distinct xs"
proof -
  have "count (mset xs) a = (if a \<in> set xs then 1 else 0)" for a
  proof (cases "a \<in> set xs")
    case True
    then have "1 \<le> count (mset xs) a" by (simp add: Suc_le_eq)
    moreover have "count (mset xs) a \<le> count (mset ys) a"
      using assms(1) by (rule mset_subset_eq_count)
    moreover have "count (mset ys) a \<le> 1"
      using assms(2) by (simp add: distinct_count_atmost_1)
    ultimately have "count (mset xs) a = 1" by linarith
    then show ?thesis using True by (simp only: if_True)
  next
    case False
    then show ?thesis by simp
  qed
  then show ?thesis by (simp add: distinct_count_atmost_1)
qed

lemma ids_of_append: "ids_of (xs @ ys) = ids_of xs @ ids_of ys"
  by (induction xs) simp_all

lemma ids_list_update:
  "i < length xs \<Longrightarrow>
   mset (ids_of (xs[i := f])) + mset (ids_field (xs ! i)) = mset (ids_of xs) + mset (ids_field f)"
proof (induction xs arbitrary: i)
  case Nil
  then show ?case by simp
next
  case (Cons x xs)
  show ?case
  proof (cases i)
    case 0
    then show ?thesis by simp
  next
    case (Suc n)
    then have "mset (ids_of (xs[n := f])) + mset (ids_field (xs ! n)) =
        mset (ids_of xs) + mset (ids_field f)"
      using Cons by simp
    then show ?thesis using Suc by (simp add: add.assoc)
  qed
qed

lemma ids_put_fields:
  "mset (ids_field (put_fields cs f)) + mset (ids_of (children f)) =
   mset (ids_field f) + mset (ids_of cs)"
  by (cases f; cases "fields f") (simp_all add: put_fields_def children_def or_empty_def)

lemma ids_set:
  "v = FieldsValue w \<Longrightarrow> get_array ks xs = Done c \<Longrightarrow> set_array ks v xs = Done xs' \<Longrightarrow>
     mset (ids_of xs') + mset (ids_of (or_empty c)) = mset (ids_of xs) + mset (ids_of w)"
  "v = FieldsValue w \<Longrightarrow> get_field ks f = Done c \<Longrightarrow> set_field ks v f = Done f' \<Longrightarrow>
     mset (ids_field f') + mset (ids_of (or_empty c)) = mset (ids_field f) + mset (ids_of w)"
proof (induction ks v xs and ks v f arbitrary: c xs' and c f' rule: set_array_set_field.induct)
  case (1 v xs)
  then show ?case by simp
next
  case (2 k ks v xs)
  from 2(4) obtain i g where i: "array_index k = Some i" "i < length xs"
    and g: "set_field ks v (xs ! i) = Done g" and xs': "xs' = xs[i := g]"
    by (auto split: option.splits if_splits outcome.splits)
  have "get_field ks (xs ! i) = Done c" using 2(3) i by simp
  then have "mset (ids_field g) + mset (ids_of (or_empty c)) =
      mset (ids_field (xs ! i)) + mset (ids_of w)"
    using 2(1)[OF i 2(2) _ g] by simp
  moreover have "mset (ids_of (xs[i := g])) + mset (ids_field (xs ! i)) =
      mset (ids_of xs) + mset (ids_field g)"
    using i(2) by (rule ids_list_update)
  ultimately have "mset (ids_of (xs[i := g])) + mset (ids_of (or_empty c)) +
      (mset (ids_field (xs ! i)) + mset (ids_field g)) =
      mset (ids_of xs) + mset (ids_of w) + (mset (ids_field (xs ! i)) + mset (ids_field g))"
    by (metis (no_types, lifting) add.assoc add.commute add.left_commute)
  then show ?case unfolding xs' by (simp only: add_right_cancel)
next
  case (3 v f)
  then show ?case by simp
next
  case (4 k v f)
  from 4 have k: "k = ''fields''" and f': "f' = put_fields w f"
    by (auto split: if_splits)
  have "or_empty c = children f"
    using 4(2) k by (auto simp: or_empty_def children_def split: option.splits)
  then show ?case using ids_put_fields[of w f] f' by simp
next
  case (5 k k' ks v f)
  from 5(4) obtain cs cs' where k: "k = ''fields''" and cs: "fields f = Some cs"
    and cs': "set_array (k' # ks) v cs = Done cs'" and f': "f' = put_fields cs' f"
    by (auto split: option.splits if_splits outcome.splits)
  have "get_array (k' # ks) cs = Done c" using 5(3) k cs by simp
  then have "mset (ids_of cs') + mset (ids_of (or_empty c)) = mset (ids_of cs) + mset (ids_of w)"
    using 5(1)[OF k cs 5(2) _ cs'] by simp
  moreover have "mset (ids_field (put_fields cs' f)) + mset (ids_of cs) =
      mset (ids_field f) + mset (ids_of cs')"
    using ids_put_fields[of cs' f] cs by (simp add: children_def or_empty_def)
  ultimately have "mset (ids_field (put_fields cs' f)) + mset (ids_of (or_empty c)) +
      (mset (ids_of cs) + mset (ids_of cs')) =
      mset (ids_field f) + mset (ids_of w) + (mset (ids_of cs) + mset (ids_of cs'))"
    by (metis (no_types, lifting) add.assoc add.commute add.left_commute)
  then show ?case unfolding f' by (simp only: add_right_cancel)
qed

lemma ids_setValue:
  assumes "getValues path fs = Done c" "setValue path (FieldsValue w) fs = Done fs'"
  shows "mset (ids_of fs') + mset (ids_of (or_empty c)) = mset (ids_of fs) + mset (ids_of w)"
proof (cases "split CHR ''.'' path")
  case Nil
  then show ?thesis using assms by (simp add: getValues_def)
next
  case (Cons k ks)
  note outer = Cons
  show ?thesis
  proof (cases ks)
    case Nil
    then show ?thesis using assms outer
      by (auto simp: getValues_def setValue_def or_empty_def split: if_splits)
  next
    case (Cons k' ks')
    then have "get_array ks fs = Done c" "set_array ks (FieldsValue w) fs = Done fs'"
      using assms outer by (auto simp: getValues_def setValue_def split: if_splits)
    then show ?thesis using ids_set(1) by blast
  qed
qed

lemma ids_splice1: "mset (ids_of (splice1 start xs)) \<subseteq># mset (ids_of xs)"
proof -
  obtain a where a: "splice1 start xs = take a xs @ drop (Suc a) xs"
    by (simp add: splice1_def Let_def)
  show ?thesis
  proof (cases "a < length xs")
    case True
    then have "xs = take a xs @ xs ! a # drop (Suc a) xs" by (rule id_take_nth_drop)
    then have "mset (ids_of xs) =
        mset (ids_of (take a xs @ drop (Suc a) xs)) + mset (ids_field (xs ! a))"
      by (metis ids_of.simps(2) ids_of_append mset_append add.assoc add.commute)
    then show ?thesis unfolding a by simp
  next
    case False
    then show ?thesis unfolding a by simp
  qed
qed

lemma ids_removeField:
  assumes "removeField path fs = Done fs'"
  shows "mset (ids_of fs') \<subseteq># mset (ids_of fs)"
proof (cases "includes_str path ''.fields.''")
  case False
  then show ?thesis using assms ids_splice1 by (auto simp: removeField_def remove_def)
next
  case True
  define parent where "parent = join ''.'' (butlast (split CHR ''.'' path))"
  define index where "index = parseInt (last (split CHR ''.'' path))"
  from assms True obtain c where c: "getValues parent fs = Done c"
    and s: "setValue parent (FieldsValue (splice1 index (or_empty c))) fs = Done fs'"
    by (auto simp: removeField_def Let_def parent_def index_def split: outcome.splits)
  have eq: "mset (ids_of fs') + mset (ids_of (or_empty c)) =
      mset (ids_of fs) + mset (ids_of (splice1 index (or_empty c)))"
    using ids_setValue[OF c s] .
  have "mset (ids_of (splice1 index (or_empty c))) \<subseteq># mset (ids_of (or_empty c))"
    by (rule ids_splice1)
  then have "mset (ids_of fs) + mset (ids_of (splice1 index (or_empty c))) \<subseteq>#
      mset (ids_of fs) + mset (ids_of (or_empty c))"
    by simp
  then have "mset (ids_of fs') + mset (ids_of (or_empty c)) \<subseteq>#
      mset (ids_of fs) + mset (ids_of (or_empty c))"
    using eq by simp
  then show ?thesis by simp
qed

lemma ids_addField:
  assumes "fst (addField parentPath uuid fs) = Done fs'"
  shows "mset (ids_of fs') = mset (ids_of fs) + {#uuid#}"
proof -
  have root: "mset (ids_of (append (newField uuid) fs)) = mset (ids_of fs) + {#uuid#}"
    by (simp add: append_def ids_of_append newField_def)
  show ?thesis
  proof (cases "parentPath = None \<or> parentPath = Some []")
    case True
    then show ?thesis using assms root by (auto simp: addField_def)
  next
    case False
    then obtain p where p: "parentPath = Some p" "p \<noteq> []" by (cases parentPath) auto
    from assms p obtain c where c: "getValues (p @ ''.fields'') fs = Done c"
      and s: "setValue (p @ ''.fields'') (FieldsValue (or_empty c @ [newField uuid])) fs = Done fs'"
      by (auto simp: addField_def Let_def split: outcome.splits)
    have "mset (ids_of fs') + mset (ids_of (or_empty c)) =
        mset (ids_of fs) + mset (ids_of (or_empty c @ [newField uuid]))"
      using ids_setValue[OF c s] .
    then have "mset (ids_of fs') + mset (ids_of (or_empty c)) =
        mset (ids_of fs) + {#uuid#} + mset (ids_of (or_empty c))"
      by (simp add: ids_of_append newField_def)
    then show ?thesis by (simp only: add_right_cancel)
  qed
qed

lemma run_ids:
  assumes "run ops fs = Done fs'" "distinct (ids_of fs)" "distinct (uuids ops)"
    "set (uuids ops) \<inter> set (ids_of fs) = {}"
  shows "distinct (ids_of fs') \<and> set (ids_of fs') \<subseteq> set (ids_of fs) \<union> set (uuids ops)"
  using assms
proof (induction ops arbitrary: fs)
  case Nil
  then show ?case by simp
next
  case (Cons x ops)
  from Cons.prems(1) obtain fs1 where x: "apply_op x fs = Done fs1" and r: "run ops fs1 = Done fs'"
    by (auto split: outcome.splits)
  show ?case
  proof (cases x)
    case (AddField parentPath uuid)
    then have m: "mset (ids_of fs1) = mset (ids_of fs) + {#uuid#}"
      using x ids_addField by simp
    then have "mset (ids_of fs1) = mset (ids_of fs @ [uuid])" by simp
    then have d: "distinct (ids_of fs1) = distinct (ids_of fs @ [uuid])"
      by (rule mset_eq_imp_distinct_iff)
    have s: "set (ids_of fs1) = insert uuid (set (ids_of fs))"
      using m by (metis set_mset_mset set_mset_add_mset_insert union_mset_add_mset_right
          add.right_neutral)
    have "distinct (ids_of fs1)" using d Cons.prems(2,4) AddField by auto
    moreover have "distinct (uuids ops)" using Cons.prems(3) AddField by simp
    moreover have "set (uuids ops) \<inter> set (ids_of fs1) = {}"
      using s Cons.prems(3,4) AddField by auto
    ultimately have "distinct (ids_of fs') \<and> set (ids_of fs') \<subseteq> set (ids_of fs1) \<union> set (uuids ops)"
      using Cons.IH[OF r] by blast
    then show ?thesis using s AddField by auto
  next
    case (RemoveField path)
    then have sub: "mset (ids_of fs1) \<subseteq># mset (ids_of fs)"
      using x ids_removeField by simp
    then have s: "set (ids_of fs1) \<subseteq> set (ids_of fs)"
      using set_mset_mono by fastforce
    have "distinct (ids_of fs1)" using sub Cons.prems(2) by (rule distinct_submultiset)
    moreover have "distinct (uuids ops)" using Cons.prems(3) RemoveField by simp
    moreover have "set (uuids ops) \<inter> set (ids_of fs1) = {}"
      using s Cons.prems(4) RemoveField by auto
    ultimately have "distinct (ids_of fs') \<and> set (ids_of fs') \<subseteq> set (ids_of fs1) \<union> set (uuids ops)"
      using Cons.IH[OF r] by blast
    then show ?thesis using s RemoveField by auto
  qed
qed

section \<open>Claim C1: the keys of the projection\<close>

text \<open>
  Claim C1, as stated: the keys of the projection are the names of the fields in sequence
  order. It fails for a name that is an array index: of the fields \<^verbatim>\<open>b\<close> and \<^verbatim>\<open>1\<close>, in
  this order, the projection is \<^verbatim>\<open>{"1":"number","b":"string"}\<close>.
\<close>

theorem C1_counterexample:
  "generateSchema [SchemaField ''u1'' ''b'' String_t None, SchemaField ''u2'' ''1'' Number_t None] =
     JObject [(''1'', JString ''number''), (''b'', JString ''string'')] \<and>
   object_keys (generateSchema
       [SchemaField ''u1'' ''b'' String_t None, SchemaField ''u2'' ''1'' Number_t None]) \<noteq>
     first_occurrences []
       (map name [SchemaField ''u1'' ''b'' String_t None, SchemaField ''u2'' ''1'' Number_t None])"
  by (simp add: spread_with_def object_keys_def array_index_small array_index_b)

text \<open>
  Claim C1, amended: the keys of the projection are the names of the fields, each once;
  the value of a key is that of the last field with this name; the names that are not
  array indices come in the sequence order of their first occurrence, after the names
  that are array indices, which come in ascending numeric order; and two root fields named
  \<^verbatim>\<open>x\<close>, the first a string and the second a number, project to \<^verbatim>\<open>{"x":"number"}\<close>.
\<close>

theorem C1_projection_keys:
  "set (object_keys (generateSchema fs)) = set (map name fs) \<and>
   distinct (object_keys (generateSchema fs)) \<and>
   map_of (props (generateSchema fs)) = map_of (rev (map (\<lambda>f. (name f, fieldValue f)) fs)) \<and>
   filter (\<lambda>k. \<not> is_index k) (object_keys (generateSchema fs)) =
     first_occurrences [] (filter (\<lambda>k. \<not> is_index k) (map name fs)) \<and>
   sorted_wrt key_le (object_keys (generateSchema fs)) \<and>
   generateSchema [SchemaField i ''x'' String_t c, SchemaField i' ''x'' Number_t c'] =
     JObject [(''x'', JString ''number'')]"
proof -
  have "set (object_keys (generateSchema fs)) = set (map name fs)"
    using keys_reduce_fields[of "[]" fs] by (simp add: object_keys_def)
  moreover have "distinct (object_keys (generateSchema fs))"
    using distinct_reduce_fields[of "[]" fs] by (simp add: object_keys_def)
  moreover have "map_of (props (generateSchema fs)) =
      map_of (rev (map (\<lambda>f. (name f, fieldValue f)) fs))"
    using map_of_reduce_fields[of "[]" fs] by simp
  moreover have "filter (\<lambda>k. \<not> is_index k) (object_keys (generateSchema fs)) =
      first_occurrences [] (filter (\<lambda>k. \<not> is_index k) (map name fs))"
    using nonindex_reduce_fields[of "[]" fs] by (simp add: object_keys_def)
  moreover have "sorted_wrt key_le (object_keys (generateSchema fs))"
    using sorted_reduce_fields[of "[]" fs] by (simp add: object_keys_def)
  ultimately show ?thesis using duplicate_x by blast
qed

text \<open>
  An instance: the fields \<^verbatim>\<open>b\<close>, \<^verbatim>\<open>1\<close> and \<^verbatim>\<open>b\<close> again.
\<close>

theorem C1_projection_keys_witness:
  "object_keys (generateSchema
      [SchemaField ''u1'' ''b'' String_t None, SchemaField ''u2'' ''1'' Number_t None,
       SchemaField ''u3'' ''b'' Number_t None]) = [''1'', ''b''] \<and>
   map_of (props (generateSchema
      [SchemaField ''u1'' ''b'' String_t None, SchemaField ''u2'' ''1'' Number_t None,
       SchemaField ''u3'' ''b'' Number_t None])) ''b'' = Some (JString ''number'')"
  using C1_projection_keys[of
      "[SchemaField ''u1'' ''b'' String_t None, SchemaField ''u2'' ''1'' Number_t None,
        SchemaField ''u3'' ''b'' Number_t None]"]
  by (simp add: spread_with_def object_keys_def array_index_small array_index_b)

section \<open>Claim C2: \<open>removeField\<close> on a path that does not resolve\<close>




section \<open>Claim C3: \<open>removeField\<close> deletes the field at the path\<close>

text \<open>
  Claim C3: removing a field deletes that field and shifts its following siblings down.
  For a root row the code does not: the path of the second root field is
  \<^verbatim>\<open>fields.1\<close>, which has no \<^verbatim>\<open>.fields.\<close> in it, so \<open>removeField\<close> calls
  \<^verbatim>\<open>remove(parseInt("fields.1"))\<close>, that is \<^verbatim>\<open>remove(NaN)\<close>, and the first field is
  deleted instead of the second.
\<close>

theorem C3_root_removal_deletes_first_field:
  "removeField ''fields.1''
      [SchemaField ''u1'' ''a'' String_t None, SchemaField ''u2'' ''b'' Number_t None] =
     Done [SchemaField ''u2'' ''b'' Number_t None] \<and>
   removeField ''fields.1''
      [SchemaField ''u1'' ''a'' String_t None, SchemaField ''u2'' ''b'' Number_t None] \<noteq>
     Done [SchemaField ''u1'' ''a'' String_t None]"
  using removeField_root[of 1
      "[SchemaField ''u1'' ''a'' String_t None, SchemaField ''u2'' ''b'' Number_t None]"]
  by (simp add: show_nat_small)

section \<open>Claim C4: fields that are not nested\<close>

text \<open>
  Claim C4, as stated: every field whose type is not nested has its type tag as the value
  of its name in the projection. Not so when a later field of the same sequence has the
  same name: of the root fields \<^verbatim>\<open>x\<close>, a string, and \<^verbatim>\<open>x\<close>, nested with the child \<^verbatim>\<open>k\<close>, a
  number, the projection is \<^verbatim>\<open>{"x":{"k":"number"}}\<close>, where the name of the string field is
  mapped to nested content and not to \<^verbatim>\<open>"string"\<close>.
\<close>

theorem C4_counterexample:
  "type (SchemaField ''u1'' ''x'' String_t None) \<noteq> Nested_t \<and>
   generateSchema
      [SchemaField ''u1'' ''x'' String_t None,
       SchemaField ''u2'' ''x'' Nested_t (Some [SchemaField ''u3'' ''k'' Number_t None])] =
     JObject [(''x'', JObject [(''k'', JString ''number'')])] \<and>
   map_of (props (generateSchema
      [SchemaField ''u1'' ''x'' String_t None,
       SchemaField ''u2'' ''x'' Nested_t (Some [SchemaField ''u3'' ''k'' Number_t None])])) ''x'' \<noteq>
     Some (JString ''string'')"
  by (simp add: spread_with_def array_index_def is_digit_def)

text \<open>
  Claim C4, amended: a field whose type is not nested has its type tag as its value in the
  projection, whatever children it still holds, and no nested content: the projection of
  its sequence, at the root or among the children of a nested field, maps its name to the
  tag unless a later field of that sequence has the same name and overwrites the entry;
  the projection is the same whatever children such a field is given, at any depth of the
  tree; a nested field with children, switched to the type string, projects as its name
  mapped to \<^verbatim>\<open>"string"\<close>.
\<close>

theorem C4_not_nested_projects_type_tag:
  "fieldValue (SchemaField i n String_t cs) = JString ''string'' \<and>
   fieldValue (SchemaField i n Number_t cs) = JString ''number'' \<and>
   (type f \<noteq> Nested_t \<and> name f \<notin> name ` set gs \<longrightarrow>
      map_of (props (generateSchema (fs @ f # gs))) (name f) =
        Some (JString (if type f = String_t then ''string'' else ''number''))) \<and>
   (type f \<noteq> Nested_t \<and> name f \<notin> name ` set gs \<longrightarrow>
      map_of (props (fieldValue (SchemaField i' n' Nested_t (Some (fs @ f # gs))))) (name f) =
        Some (JString (if type f = String_t then ''string'' else ''number''))) \<and>
   (field_at js hs = Some p \<and> type p \<noteq> Nested_t \<longrightarrow>
      generateSchema (update_at js (put_fields es) hs) = generateSchema hs) \<and>
   setFieldType ''fields.0'' String_t [SchemaField i n Nested_t (Some ds)] =
     Done [SchemaField i n String_t (Some ds)] \<and>
   generateSchema [SchemaField i n String_t (Some ds)] = JObject [(n, JString ''string'')]"
proof -
  have tag: "map_of (props (generateSchema (fs @ f # gs))) (name f) =
      Some (JString (if type f = String_t then ''string'' else ''number''))"
    if "type f \<noteq> Nested_t" "name f \<notin> name ` set gs"
    using last_writer[OF that(2), of fs] fieldValue_not_nested[OF that(1)] by simp
  have eq: "fieldValue (SchemaField i' n' Nested_t (Some (fs @ f # gs))) =
      generateSchema (fs @ f # gs)"
    by simp
  have nested: "map_of (props (fieldValue (SchemaField i' n' Nested_t (Some (fs @ f # gs)))))
        (name f) =
      Some (JString (if type f = String_t then ''string'' else ''number''))"
    if "type f \<noteq> Nested_t" "name f \<notin> name ` set gs"
    using tag[OF that] by (simp only: eq)
  have children: "generateSchema (update_at js (put_fields es) hs) = generateSchema hs"
    if "field_at js hs = Some p" "type p \<noteq> Nested_t"
  proof -
    have "name (put_fields es p) = name p" by (simp add: put_fields_def)
    then have "reduce_fields [] (update_at js (put_fields es) hs) = reduce_fields [] hs"
      using projection_update_at[OF that(1)] fieldValue_put_fields_not_nested[OF that(2)]
      by blast
    then show ?thesis by simp
  qed
  have string: "fieldValue (SchemaField i n String_t cs) = JString ''string''"
    and number: "fieldValue (SchemaField i n Number_t cs) = JString ''number''"
    by simp_all
  have switch: "setFieldType ''fields.0'' String_t [SchemaField i n Nested_t (Some ds)] =
      Done [SchemaField i n String_t (Some ds)]"
    by (simp add: setFieldType_root0 put_type_def)
  have switched: "generateSchema [SchemaField i n String_t (Some ds)] =
      JObject [(n, JString ''string'')]"
    by (simp add: generateSchema_single del: generateSchema.simps)
  show ?thesis using tag nested children string number switch switched by blast
qed

text \<open>
  An instance: the field \<^verbatim>\<open>b\<close>, a string with a child left over, between two other
  fields, at the root and among the children of a nested field.
\<close>

theorem C4_not_nested_projects_type_tag_witness:
  "map_of (props (generateSchema
      [SchemaField ''u1'' ''a'' Number_t None,
       SchemaField ''u2'' ''b'' String_t (Some [SchemaField ''u3'' ''c'' Number_t None]),
       SchemaField ''u4'' ''d'' Nested_t None])) ''b'' = Some (JString ''string'') \<and>
   map_of (props (fieldValue (SchemaField ''u0'' ''r'' Nested_t (Some
      [SchemaField ''u1'' ''a'' Number_t None,
       SchemaField ''u2'' ''b'' String_t (Some [SchemaField ''u3'' ''c'' Number_t None]),
       SchemaField ''u4'' ''d'' Nested_t None])))) ''b'' = Some (JString ''string'') \<and>
   generateSchema
      [SchemaField ''u1'' ''a'' Number_t None,
       SchemaField ''u2'' ''b'' String_t (Some [SchemaField ''u3'' ''c'' Number_t None])] =
     generateSchema
      [SchemaField ''u1'' ''a'' Number_t None, SchemaField ''u2'' ''b'' String_t None] \<and>
   setFieldType ''fields.0'' String_t
      [SchemaField ''u2'' ''b'' Nested_t (Some [SchemaField ''u3'' ''c'' Number_t None])] =
     Done [SchemaField ''u2'' ''b'' String_t (Some [SchemaField ''u3'' ''c'' Number_t None])]"
  using C4_not_nested_projects_type_tag[where i = "''u2''" and n = "''b''"
      and i' = "''u0''" and n' = "''r''"
      and cs = "Some [SchemaField ''u3'' ''c'' Number_t None]"
      and f = "SchemaField ''u2'' ''b'' String_t (Some [SchemaField ''u3'' ''c'' Number_t None])"
      and gs = "[SchemaField ''u4'' ''d'' Nested_t None]"
      and fs = "[SchemaField ''u1'' ''a'' Number_t None]"
      and ds = "[SchemaField ''u3'' ''c'' Number_t None]"
      and js = "[1]"
      and hs = "[SchemaField ''u1'' ''a'' Number_t None, SchemaField ''u2'' ''b'' String_t None]"
      and p = "SchemaField ''u2'' ''b'' String_t None"
      and es = "[SchemaField ''u3'' ''c'' Number_t None]"]
  by (simp add: put_fields_def del: generateSchema.simps fieldValue.simps)

section \<open>Claim C5: nested fields without children\<close>

text \<open>
  Claim C5: a nested field whose children are absent or empty projects to the empty
  object, alone or among other fields (when no later field has the same name), and the
  empty root sequence projects to the empty object.
\<close>

theorem C5_no_children_projects_empty_object:
  "fieldValue (SchemaField i n Nested_t None) = JObject [] \<and>
   fieldValue (SchemaField i n Nested_t (Some [])) = JObject [] \<and>
   generateSchema [SchemaField i n Nested_t None] = JObject [(n, JObject [])] \<and>
   generateSchema [SchemaField i n Nested_t (Some [])] = JObject [(n, JObject [])] \<and>
   (type f = Nested_t \<and> children f = [] \<and> name f \<notin> name ` set gs \<longrightarrow>
      map_of (props (generateSchema (fs @ f # gs))) (name f) = Some (JObject [])) \<and>
   generateSchema [] = JObject []"
proof -
  have "map_of (props (generateSchema (fs @ f # gs))) (name f) = Some (JObject [])"
    if "type f = Nested_t" "children f = []" "name f \<notin> name ` set gs"
  proof -
    have "fieldValue f = JObject []"
      using that(1,2) by (cases f; cases "fields f") (simp_all add: children_def or_empty_def)
    then show ?thesis using last_writer[OF that(3), of fs] by simp
  qed
  then show ?thesis
    by (simp add: generateSchema_single del: generateSchema.simps) simp
qed

text \<open>
  An instance: a nested field \<^verbatim>\<open>address\<close> without children, alone and after another
  field.
\<close>

theorem C5_no_children_projects_empty_object_witness:
  "generateSchema [SchemaField ''u1'' ''address'' Nested_t None] =
     JObject [(''address'', JObject [])] \<and>
   generateSchema [SchemaField ''u1'' ''address'' Nested_t (Some [])] =
     JObject [(''address'', JObject [])] \<and>
   generateSchema
     [SchemaField ''u2'' ''age'' Number_t None, SchemaField ''u1'' ''address'' Nested_t (Some [])] =
     JObject [(''age'', JString ''number''), (''address'', JObject [])]"
  using C5_no_children_projects_empty_object[where i = "''u1''" and n = "''address''"
      and f = "SchemaField ''u1'' ''address'' Nested_t (Some [])" and gs = "[]"
      and fs = "[SchemaField ''u2'' ''age'' Number_t None]"]
  by (simp add: spread_with_def array_index_def is_digit_def)

section \<open>Claim C6: \<open>addField\<close>\<close>

text \<open>
  Claim C6, as stated: \<open>addField\<close> returns the id of the new field. It returns
  nothing, at the root and under a parent.
\<close>

theorem C6_counterexample:
  "snd (addField None ''u2'' [SchemaField ''u1'' [] String_t None]) \<noteq> Some ''u2'' \<and>
   snd (addField (Some ''fields.0'') ''u2'' [SchemaField ''u1'' [] String_t None]) \<noteq> Some ''u2''"
  by (simp add: addField_def getValues_def array_index_small)

text \<open>
  Claim C6, amended: \<open>addField\<close> creates a new field with a fresh unique id, the
  empty name, the type string and no children; when the parent path is omitted (or empty)
  the new field is appended at the end of the root sequence, and when it is the path of a
  field it is appended at the end of the children of that field (absent children counting
  as none); \<open>addField\<close> returns nothing. The id is the string drawn from
  \<^verbatim>\<open>crypto.randomUUID()\<close>: the ids of the tree after the call are those before it and the
  drawn one, so that, the drawn string being none of the ids of the tree, the new id
  occurs once in the tree, and the ids of the tree are pairwise distinct if they were.
\<close>

theorem C6_addField_appends_new_field:
  "addField None uuid fs = (Done (fs @ [SchemaField uuid [] String_t None]), None) \<and>
   addField (Some []) uuid fs = (Done (fs @ [SchemaField uuid [] String_t None]), None) \<and>
   ((\<forall>i\<in>set js. i < array_limit) \<and> field_at js fs = Some p \<longrightarrow>
      addField (Some (path_of js)) uuid fs =
        (Done (update_at js (put_fields (children p @ [SchemaField uuid [] String_t None])) fs),
         None)) \<and>
   snd (addField parentPath uuid fs) = None \<and>
   (fst (addField parentPath uuid fs) = Done fs' \<longrightarrow>
      mset (ids_of fs') = mset (ids_of fs) + {#uuid#}) \<and>
   (fst (addField parentPath uuid fs) = Done fs' \<and> uuid \<notin> set (ids_of fs) \<longrightarrow>
      count (mset (ids_of fs')) uuid = 1 \<and> (distinct (ids_of fs) \<longrightarrow> distinct (ids_of fs')))"
proof -
  have empty: "addField (Some []) uuid fs = (Done (fs @ [newField uuid]), None)"
    by (simp add: addField_def append_def)
  have no_value: "snd (addField parentPath uuid fs) = None"
    by (simp add: addField_def split: option.splits outcome.splits)
  have ids: "mset (ids_of fs') = mset (ids_of fs) + {#uuid#}"
    if "fst (addField parentPath uuid fs) = Done fs'"
    using that by (rule ids_addField)
  have fresh: "count (mset (ids_of fs')) uuid = 1 \<and>
      (distinct (ids_of fs) \<longrightarrow> distinct (ids_of fs'))"
    if r: "fst (addField parentPath uuid fs) = Done fs'" and n: "uuid \<notin> set (ids_of fs)"
  proof -
    have m: "mset (ids_of fs') = mset (ids_of (fs)) + {#uuid#}" using ids[OF r] .
    have "count (mset (ids_of fs)) uuid = 0" using n by (simp add: count_eq_zero_iff)
    then have c: "count (mset (ids_of fs')) uuid = 1" using m by simp
    have "distinct (ids_of fs')" if d: "distinct (ids_of fs)"
    proof -
      have "mset (ids_of fs') = mset (uuid # ids_of fs)" using m by simp
      moreover have "distinct (uuid # ids_of fs)" using d n by simp
      ultimately show ?thesis using mset_eq_imp_distinct_iff by blast
    qed
    then show ?thesis using c by blast
  qed
  have root: "addField None uuid fs = (Done (fs @ [SchemaField uuid [] String_t None]), None)"
    by (simp add: addField_root newField_def)
  have nested: "addField (Some (path_of js)) uuid fs =
      (Done (update_at js (put_fields (children p @ [SchemaField uuid [] String_t None])) fs),
       None)"
    if "\<forall>i\<in>set js. i < array_limit" "field_at js fs = Some p"
    using addField_nested[OF that, of uuid] by (simp add: newField_def)
  show ?thesis
    using root empty[unfolded newField_def] nested no_value ids fresh by blast
qed

text \<open>
  An instance: a field added at the root, and one added under the first root field, with
  an id that the tree does not have.
\<close>

theorem C6_addField_appends_new_field_witness:
  "path_of [0] = ''fields.0'' \<and>
   field_at [0] [SchemaField ''u1'' ''a'' Nested_t None] = Some (SchemaField ''u1'' ''a'' Nested_t None) \<and>
   addField None ''u2'' [SchemaField ''u1'' ''a'' Nested_t None] =
     (Done [SchemaField ''u1'' ''a'' Nested_t None, SchemaField ''u2'' [] String_t None], None) \<and>
   addField (Some []) ''u2'' [SchemaField ''u1'' ''a'' Nested_t None] =
     (Done [SchemaField ''u1'' ''a'' Nested_t None, SchemaField ''u2'' [] String_t None], None) \<and>
   addField (Some (path_of [0])) ''u2'' [SchemaField ''u1'' ''a'' Nested_t None] =
     (Done [SchemaField ''u1'' ''a'' Nested_t (Some [SchemaField ''u2'' [] String_t None])], None) \<and>
   ''u2'' \<notin> set (ids_of [SchemaField ''u1'' ''a'' Nested_t None]) \<and>
   distinct (ids_of [SchemaField ''u1'' ''a'' Nested_t None]) \<and>
   mset (ids_of [SchemaField ''u1'' ''a'' Nested_t (Some [SchemaField ''u2'' [] String_t None])]) =
     mset (ids_of [SchemaField ''u1'' ''a'' Nested_t None]) + {#''u2''#} \<and>
   count (mset (ids_of
      [SchemaField ''u1'' ''a'' Nested_t (Some [SchemaField ''u2'' [] String_t None])])) ''u2'' = 1 \<and>
   distinct (ids_of [SchemaField ''u1'' ''a'' Nested_t (Some [SchemaField ''u2'' [] String_t None])])"
  using C6_addField_appends_new_field[where uuid = "''u2''"
      and fs = "[SchemaField ''u1'' ''a'' Nested_t None]" and js = "[0]"
      and p = "SchemaField ''u1'' ''a'' Nested_t None"
      and parentPath = "Some (path_of [0])"
      and fs' = "[SchemaField ''u1'' ''a'' Nested_t (Some [SchemaField ''u2'' [] String_t None])]"]
    limit_0
  by (simp add: children_def or_empty_def put_fields_def show_nat_small)

section \<open>Claim C7: setting the type nested\<close>

text \<open>
  Claim C7, as stated: setting the type nested on a field without a children sequence
  gives it an empty one. It does not: the \<^verbatim>\<open>fields\<close> property stays absent.
\<close>

theorem C7_counterexample:
  "setFieldType ''fields.0'' Nested_t [SchemaField ''u1'' [] String_t None] =
     Done [SchemaField ''u1'' [] Nested_t None] \<and>
   setFieldType ''fields.0'' Nested_t [SchemaField ''u1'' [] String_t None] \<noteq>
     Done [SchemaField ''u1'' [] Nested_t (Some [])]"
  by (simp add: setFieldType_def setValue_def array_index_small put_type_def)

text \<open>
  Claim C7, amended: setting the type of the field at a path writes the type and nothing
  else, so the children stay as they are, absent children stay absent; and a nested field
  with absent children projects to the empty object.
\<close>

theorem C7_setFieldType_writes_type_only:
  assumes "\<forall>i\<in>set is. i < array_limit" and "field_at is fs = Some p"
  shows "setFieldType (path_of is) t fs = Done (update_at is (put_type t) fs) \<and>
         field_at is (update_at is (put_type t) fs) = Some (SchemaField (id_field p) (name p) t (fields p)) \<and>
         (fields p = None \<longrightarrow> fieldValue (SchemaField (id_field p) (name p) Nested_t (fields p)) = JObject [])"
  using setFieldType_at[OF assms, of t] field_at_update_at[OF assms(2), of "put_type t"]
  by (simp add: put_type_def)

text \<open>
  An instance: the default field, set to nested.
\<close>

theorem C7_setFieldType_writes_type_only_witness:
  "path_of [0] = ''fields.0'' \<and>
   field_at [0] [SchemaField ''u1'' [] String_t None] = Some (SchemaField ''u1'' [] String_t None) \<and>
   setFieldType (path_of [0]) Nested_t [SchemaField ''u1'' [] String_t None] =
     Done [SchemaField ''u1'' [] Nested_t None] \<and>
   fieldValue (SchemaField ''u1'' [] Nested_t None) = JObject []"
  using C7_setFieldType_writes_type_only[OF limit_0, of "[SchemaField ''u1'' [] String_t None]"
      "SchemaField ''u1'' [] String_t None" Nested_t]
  by (simp add: put_type_def show_nat_small)

section \<open>Claim C8: ids stay unique\<close>

text \<open>
  Claim C8: along every run of \<open>addField\<close> and \<open>removeField\<close> from the default
  tree, the ids of the tree are pairwise distinct, and each is one of the strings drawn from
  \<^verbatim>\<open>crypto.randomUUID()\<close>, so none is used again. The strings drawn are taken to differ
  from each other, which is what the generator is for.
\<close>

theorem C8_ids_stay_unique:
  assumes "distinct (uuid0 # uuids ops)" and "run ops (defaultValues uuid0) = Done fs"
  shows "distinct (ids_of fs) \<and> set (ids_of fs) \<subseteq> set (uuid0 # uuids ops)"
proof -
  have "distinct (ids_of (defaultValues uuid0))" by (simp add: defaultValues_def)
  moreover have "set (uuids ops) \<inter> set (ids_of (defaultValues uuid0)) = {}"
    using assms(1) by (simp add: defaultValues_def)
  ultimately show ?thesis
    using run_ids[OF assms(2)] assms(1) by (simp add: defaultValues_def)
qed

text \<open>
  An instance: a run of six operations, two of them removals.
\<close>

theorem C8_ids_stay_unique_witness:
  "distinct (''u0'' # uuids
     [AddField None ''u1'', AddField (Some ''fields.1'') ''u2'', AddField None ''u3'',
      RemoveField ''fields.1.fields.0'', AddField (Some ''fields.2'') ''u4'',
      RemoveField ''fields.0'']) \<and>
   run [AddField None ''u1'', AddField (Some ''fields.1'') ''u2'', AddField None ''u3'',
        RemoveField ''fields.1.fields.0'', AddField (Some ''fields.2'') ''u4'',
        RemoveField ''fields.0''] (defaultValues ''u0'') =
     Done [SchemaField ''u1'' [] String_t (Some []),
           SchemaField ''u3'' [] String_t (Some [SchemaField ''u4'' [] String_t None])] \<and>
   distinct (ids_of
     [SchemaField ''u1'' [] String_t (Some []),
      SchemaField ''u3'' [] String_t (Some [SchemaField ''u4'' [] String_t None])])"
proof -
  let ?ops = "[AddField None ''u1'', AddField (Some ''fields.1'') ''u2'', AddField None ''u3'',
      RemoveField ''fields.1.fields.0'', AddField (Some ''fields.2'') ''u4'',
      RemoveField ''fields.0'']"
  have h1: "distinct (''u0'' # uuids ?ops)" by simp
  have h2: "run ?ops (defaultValues ''u0'') =
      Done [SchemaField ''u1'' [] String_t (Some []),
            SchemaField ''u3'' [] String_t (Some [SchemaField ''u4'' [] String_t None])]"
    by (simp add: addField_def removeField_def getValues_def setValue_def array_index_small
        parseInt_0 parseInt_fields_0 splice1_def remove_def append_def newField_def
        defaultValues_def put_fields_def or_empty_def)
  show ?thesis using h1 h2 C8_ids_stay_unique[OF h1 h2] by blast
qed

section \<open>Claim C9: the projection never fails\<close>

text \<open>
  Claim C9: the projection of every tree is an object (\<open>generateSchema\<close> is a total
  function: it has no failing branch); every name is a key of it, the empty name as the
  empty key; and fields that are all unnamed collide on the empty key, which keeps the
  value of the last of them.
\<close>

theorem C9_projection_total:
  "(\<exists>ps. generateSchema fs = JObject ps) \<and>
   name ` set fs \<subseteq> set (object_keys (generateSchema fs)) \<and>
   (f \<in> set fs \<and> name f = [] \<longrightarrow> [] \<in> set (object_keys (generateSchema fs))) \<and>
   (fs \<noteq> [] \<and> (\<forall>f\<in>set fs. name f = []) \<longrightarrow>
      generateSchema fs = JObject [([], fieldValue (last fs))])"
proof -
  have keys: "set (object_keys (generateSchema fs)) = name ` set fs"
    using keys_reduce_fields[of "[]" fs] by (simp add: object_keys_def)
  have total: "\<exists>ps. generateSchema fs = JObject ps" by simp
  have empty: "f \<in> set fs \<and> name f = [] \<longrightarrow> [] \<in> set (object_keys (generateSchema fs))"
    unfolding keys by force
  show ?thesis
    using total empty unnamed_projection[of fs] unfolding keys by blast
qed

text \<open>
  An instance: two unnamed root fields.
\<close>

theorem C9_projection_total_witness:
  "generateSchema [SchemaField ''u1'' [] String_t None, SchemaField ''u2'' [] Number_t None] =
     JObject [([], JString ''number'')] \<and>
   [] \<in> set (object_keys (generateSchema
      [SchemaField ''u1'' [] String_t None, SchemaField ''u2'' [] Number_t None]))"
  using C9_projection_total[of
      "[SchemaField ''u1'' [] String_t None, SchemaField ''u2'' [] Number_t None]"
      "SchemaField ''u1'' [] String_t None"]
  by (simp add: object_keys_def del: generateSchema.simps)

section \<open>Claim C10: \<open>addField\<close> under a parent that is not nested\<close>

text \<open>
  Claim C10: \<open>addField\<close> with the path of an existing field whose type is not nested
  completes: the new field becomes the last child of that field, whose children sequence is
  created if absent, and the projection of the tree is as before.
\<close>

theorem C10_addField_under_non_nested_parent:
  assumes "\<forall>i\<in>set is. i < array_limit" and "field_at is fs = Some p" and "type p \<noteq> Nested_t"
  shows "addField (Some (path_of is)) uuid fs =
           (Done (update_at is (put_fields (children p @ [newField uuid])) fs), None) \<and>
         field_at is (update_at is (put_fields (children p @ [newField uuid])) fs) =
           Some (SchemaField (id_field p) (name p) (type p) (Some (children p @ [newField uuid]))) \<and>
         generateSchema (update_at is (put_fields (children p @ [newField uuid])) fs) =
           generateSchema fs"
proof -
  let ?g = "put_fields (children p @ [newField uuid])"
  have "addField (Some (path_of is)) uuid fs = (Done (update_at is ?g fs), None)"
    using addField_nested[OF assms(1,2)] .
  moreover have "field_at is (update_at is ?g fs) = Some (?g p)"
    using field_at_update_at[OF assms(2)] .
  moreover have "reduce_fields [] (update_at is ?g fs) = reduce_fields [] fs"
    using assms(3)
    by (intro projection_update_at[OF assms(2)])
      (simp_all add: fieldValue_put_fields_not_nested, simp add: put_fields_def)
  ultimately show ?thesis by (simp add: put_fields_def)
qed

text \<open>
  An instance: a child added under a root field of type number.
\<close>

theorem C10_addField_under_non_nested_parent_witness:
  "path_of [0] = ''fields.0'' \<and>
   field_at [0] [SchemaField ''u1'' ''a'' Number_t None] = Some (SchemaField ''u1'' ''a'' Number_t None) \<and>
   addField (Some (path_of [0])) ''u2'' [SchemaField ''u1'' ''a'' Number_t None] =
     (Done [SchemaField ''u1'' ''a'' Number_t (Some [SchemaField ''u2'' [] String_t None])], None) \<and>
   generateSchema [SchemaField ''u1'' ''a'' Number_t (Some [SchemaField ''u2'' [] String_t None])] =
     generateSchema [SchemaField ''u1'' ''a'' Number_t None] \<and>
   generateSchema [SchemaField ''u1'' ''a'' Number_t None] = JObject [(''a'', JString ''number'')]"
  using C10_addField_under_non_nested_parent[OF limit_0, of "[SchemaField ''u1'' ''a'' Number_t None]"
      "SchemaField ''u1'' ''a'' Number_t None" "''u2''"]
  by (simp add: children_def or_empty_def newField_def put_fields_def generateSchema_single
      show_nat_small del: generateSchema.simps)

end
